theory Spec2Isabelle
  imports Complex_Main
begin

section \<open>JavaScript strings and values\<close>

text \<open>
  The statement builder \<^verbatim>\<open>xAPI-n8n-normalize.js\<close> works on JavaScript strings, which are
  sequences of UTF-16 code units. The Turkish letters it folds lie outside ASCII
  (\<open>U+0131\<close>, \<open>U+0130\<close>, \<open>U+015F\<close>, ...), so a string is modelled as the list of its code
  units, each a natural number; \<open>ascii\<close> turns an ASCII literal into such a list.
\<close>

type_synonym jstring = "nat list"

definition ascii :: "string \<Rightarrow> jstring" where
  "ascii s = map of_char s"

text \<open>
  The fields of \<^verbatim>\<open>item.json\<close> that reach the helpers: \<^verbatim>\<open>undefined\<close> (a missing field),
  \<^verbatim>\<open>null\<close>, booleans and strings. Numbers are left out: their \<^verbatim>\<open>String(...)\<close> rendering is
  floating-point formatting.
\<close>

datatype jsval = JUndefined | JNull | JBool bool | JStr jstring

fun truthy :: "jsval \<Rightarrow> bool" where
  "truthy JUndefined = False"
| "truthy JNull = False"
| "truthy (JBool b) = b"
| "truthy (JStr s) = (s \<noteq> [])"

text \<open>\<^verbatim>\<open>String(v)\<close>\<close>

fun String_js :: "jsval \<Rightarrow> jstring" where
  "String_js JUndefined = ascii ''undefined''"
| "String_js JNull = ascii ''null''"
| "String_js (JBool b) = (if b then ascii ''true'' else ascii ''false'')"
| "String_js (JStr s) = s"

text \<open>\<^verbatim>\<open>a || b\<close>\<close>

definition js_or :: "jsval \<Rightarrow> jsval \<Rightarrow> jsval" where
  "js_or a b = (if truthy a then a else b)"

text \<open>
  The code units that the regular expression class \<^verbatim>\<open>\s\<close> matches and that
  \<^verbatim>\<open>String.prototype.trim\<close> strips: ECMAScript's WhiteSpace and LineTerminator.
\<close>

definition is_ws :: "nat \<Rightarrow> bool" where
  "is_ws c \<longleftrightarrow>
     c = 0x09 \<or> c = 0x0A \<or> c = 0x0B \<or> c = 0x0C \<or> c = 0x0D \<or> c = 0x20 \<or> c = 0xA0 \<or>
     c = 0x1680 \<or> (0x2000 \<le> c \<and> c \<le> 0x200A) \<or> c = 0x2028 \<or> c = 0x2029 \<or>
     c = 0x202F \<or> c = 0x205F \<or> c = 0x3000 \<or> c = 0xFEFF"

text \<open>\<^verbatim>\<open>s.trim()\<close>\<close>

definition trim :: "jstring \<Rightarrow> jstring" where
  "trim s = rev (dropWhile is_ws (rev (dropWhile is_ws s)))"

text \<open>
  \<^verbatim>\<open>s.toLowerCase()\<close> is the locale-independent Unicode lower-casing. One code unit can
  become two: \<open>U+0130\<close> (capital I with dot above) becomes \<open>i\<close> followed by the combining
  dot above \<open>U+0307\<close>. The table below holds Basic Latin, the Latin-1 Supplement, the two
  remaining Turkish capitals (\<open>U+011E\<close>, \<open>U+015E\<close>) and the Kelvin and Angstrom signs,
  which are the only code units outside ASCII whose lower case is an ASCII letter or one of
  the letters that \<open>normalizeFull\<close> replaces. Every other code unit is left as it is here;
  its real lower case lies outside \<open>a-z\<close>, \<open>0-9\<close> and the replaced letters as well, so
  \<open>normalizeFull\<close> turns either into a space.
\<close>

definition lower_unit :: "nat \<Rightarrow> nat" where
  "lower_unit c =
     (if 0x41 \<le> c \<and> c \<le> 0x5A then c + 0x20
      else if 0xC0 \<le> c \<and> c \<le> 0xDE \<and> c \<noteq> 0xD7 then c + 0x20
      else if c = 0x11E then 0x11F
      else if c = 0x15E then 0x15F
      else if c = 0x212A then 0x6B
      else if c = 0x212B then 0xE5
      else c)"

definition toLowerCase :: "jstring \<Rightarrow> jstring" where
  "toLowerCase s = concat (map (\<lambda>c. if c = 0x130 then [0x69, 0x307] else [lower_unit c]) s)"

text \<open>\<^verbatim>\<open>s.replace(/x/g, "y")\<close> for a pattern and a replacement of one code unit each.\<close>

definition replace_all :: "nat \<Rightarrow> nat \<Rightarrow> jstring \<Rightarrow> jstring" where
  "replace_all x y s = map (\<lambda>c. if c = x then y else c) s"

text \<open>The class \<^verbatim>\<open>[a-z0-9 ]\<close> and \<^verbatim>\<open>s.replace(/[^a-z0-9 ]/g, " ")\<close>.\<close>

definition is_alnum :: "nat \<Rightarrow> bool" where
  "is_alnum c \<longleftrightarrow> (0x61 \<le> c \<and> c \<le> 0x7A) \<or> (0x30 \<le> c \<and> c \<le> 0x39)"

definition replace_other :: "jstring \<Rightarrow> jstring" where
  "replace_other s = map (\<lambda>c. if is_alnum c \<or> c = 0x20 then c else 0x20) s"

text \<open>
  \<^verbatim>\<open>s.replace(/\s+/g, " ")\<close>: every maximal run of white space becomes one space.
\<close>

function collapse_ws :: "jstring \<Rightarrow> jstring" where
  "collapse_ws [] = []"
| "collapse_ws (c # cs) =
     (if is_ws c then 0x20 # collapse_ws (dropWhile is_ws cs) else c # collapse_ws cs)"
  by pat_completeness auto
termination
  by (relation "measure length") (auto simp: less_Suc_eq_le length_dropWhile_le)

section \<open>The helpers of the statement builder\<close>

text \<open>
  \<^verbatim>\<open>
  function normalizeFull(text) {
    if (!text) return "";
    return String(text)
      .toLowerCase()
      .replace(/\u0131/g, "i").replace(/\u0130/g, "i")
      .replace(/\u015F/g, "s").replace(/\u015E/g, "s")
      .replace(/\u011F/g, "g").replace(/\u011E/g, "g")
      .replace(/\u00FC/g, "u").replace(/\u00DC/g, "u")
      .replace(/\u00F6/g, "o").replace(/\u00D6/g, "o")
      .replace(/\u00E7/g, "c").replace(/\u00C7/g, "c")
      .replace(/[^a-z0-9 ]/g, " ")
      .replace(/\s+/g, " ")
      .trim();
  }
  \<close>
  (the letters written here as \<^verbatim>\<open>\uXXXX\<close> are literal characters in the source).
\<close>

definition fold_turkish :: "jstring \<Rightarrow> jstring" where
  "fold_turkish s =
     (replace_all 0xC7 0x63 (replace_all 0xE7 0x63
     (replace_all 0xD6 0x6F (replace_all 0xF6 0x6F
     (replace_all 0xDC 0x75 (replace_all 0xFC 0x75
     (replace_all 0x11E 0x67 (replace_all 0x11F 0x67
     (replace_all 0x15E 0x73 (replace_all 0x15F 0x73
     (replace_all 0x130 0x69 (replace_all 0x131 0x69 s))))))))))))"

definition normalizeFull :: "jsval \<Rightarrow> jstring" where
  "normalizeFull text =
     (if \<not> truthy text then []
      else trim (collapse_ws (replace_other (fold_turkish (toLowerCase (String_js text))))))"

text \<open>The shape every result of \<open>normalizeFull\<close> has.\<close>

definition normal_form :: "jstring \<Rightarrow> bool" where
  "normal_form r \<longleftrightarrow>
     (\<forall>c \<in> set r. is_alnum c \<or> c = 0x20) \<and>
     successively (\<lambda>a b. \<not> (a = 0x20 \<and> b = 0x20)) r \<and>
     (r \<noteq> [] \<longrightarrow> hd r \<noteq> 0x20 \<and> last r \<noteq> 0x20)"

text \<open>\<^verbatim>\<open>s.includes(p)\<close>: \<open>p\<close> occurs in \<open>s\<close> as a contiguous run.\<close>

fun js_includes :: "jstring \<Rightarrow> jstring \<Rightarrow> bool" where
  "js_includes [] p = (p = [])"
| "js_includes (c # cs) p = (take (length p) (c # cs) = p \<or> js_includes cs p)"

text \<open>
  \<^verbatim>\<open>VERB_MAP\<close>, an object with five keys, each holding a verb: its \<^verbatim>\<open>id\<close> and the two
  entries of its \<^verbatim>\<open>display\<close> object. The Turkish display text is a value of its own
  because the fallback verb of \<open>getVerb\<close> stores the caller's value there.
\<close>

definition BASE_URI :: string where
  "BASE_URI = ''https://promptever.com''"

record verb =
  verb_id :: string
  display_tr_TR :: jsval
  display_en_US :: string

datatype verb_key = BAKIM | ONARIM | ONARIM_KAZA | KAZA_ONARIM | AKSIYON

fun VERB_MAP :: "verb_key \<Rightarrow> verb" where
  "VERB_MAP BAKIM =
     \<lparr>verb_id = BASE_URI @ ''/verbs/maintained'',
      display_tr_TR = JStr (ascii ''Bak'' @ [0x131] @ ascii ''m''),
      display_en_US = ''Maintained''\<rparr>"
| "VERB_MAP ONARIM =
     \<lparr>verb_id = BASE_URI @ ''/verbs/repaired'',
      display_tr_TR = JStr (ascii ''Onar'' @ [0x131] @ ascii ''m''),
      display_en_US = ''Repaired''\<rparr>"
| "VERB_MAP ONARIM_KAZA =
     \<lparr>verb_id = BASE_URI @ ''/verbs/accident-repaired'',
      display_tr_TR = JStr (ascii ''Kaza Onar'' @ [0x131] @ ascii ''m'' @ [0x131]),
      display_en_US = ''Accident Repaired''\<rparr>"
| "VERB_MAP KAZA_ONARIM =
     \<lparr>verb_id = BASE_URI @ ''/verbs/accident-repaired'',
      display_tr_TR = JStr (ascii ''Kaza Onar'' @ [0x131] @ ascii ''m'' @ [0x131]),
      display_en_US = ''Accident Repaired''\<rparr>"
| "VERB_MAP AKSIYON =
     \<lparr>verb_id = BASE_URI @ ''/verbs/action'',
      display_tr_TR = JStr (ascii ''Aksiyon''),
      display_en_US = ''Action''\<rparr>"

text \<open>
  \<^verbatim>\<open>
  function getVerb(islemturu) {
    const n = normalizeFull(islemturu || "");
    if (n.includes("onarim") && n.includes("kaza")) { return VERB_MAP["ONARIM KAZA"]; }
    if (n.includes("aksiyon")) { return VERB_MAP["AKSIYON"]; }
    if (n.includes("2") && n.includes("el") && n.includes("onarim")) { return VERB_MAP["ONARIM"]; }
    if (n.includes("onarim")) { return VERB_MAP["ONARIM"]; }
    if (n.includes("bakim")) { return VERB_MAP["BAKIM"]; }
    return {
      id: "http://adlnet.gov/expapi/verbs/completed",
      display: { "tr-TR": islemturu || "Tamamland\u0131", "en-US": "Completed" },
    };
  }
  \<close>
\<close>

definition completed_verb :: "jsval \<Rightarrow> verb" where
  "completed_verb islemturu =
     \<lparr>verb_id = ''http://adlnet.gov/expapi/verbs/completed'',
      display_tr_TR = js_or islemturu (JStr (ascii ''Tamamland'' @ [0x131])),
      display_en_US = ''Completed''\<rparr>"

definition getVerb :: "jsval \<Rightarrow> verb" where
  "getVerb islemturu =
     (let n = normalizeFull (js_or islemturu (JStr [])) in
      if js_includes n (ascii ''onarim'') \<and> js_includes n (ascii ''kaza'') then VERB_MAP ONARIM_KAZA
      else if js_includes n (ascii ''aksiyon'') then VERB_MAP AKSIYON
      else if js_includes n (ascii ''2'') \<and> js_includes n (ascii ''el'') \<and> js_includes n (ascii ''onarim'')
        then VERB_MAP ONARIM
      else if js_includes n (ascii ''onarim'') then VERB_MAP ONARIM
      else if js_includes n (ascii ''bakim'') then VERB_MAP BAKIM
      else completed_verb islemturu)"

section \<open>Numbers read from text\<close>

text \<open>
  \<^verbatim>\<open>Number(s)\<close> on a string follows ECMAScript's StringNumericLiteral grammar: white space
  is stripped at both ends; the empty string is \<open>0\<close>; what is left is a binary, octal or
  hexadecimal integer (\<^verbatim>\<open>0b\<close>, \<^verbatim>\<open>0o\<close>, \<^verbatim>\<open>0x\<close>) or an optionally signed decimal literal
  (\<^verbatim>\<open>Infinity\<close>, or digits with an optional fraction and an optional exponent); anything
  else is \<^verbatim>\<open>NaN\<close>. The result is modelled by the mathematical value of the literal; its
  rounding to a double is not.
\<close>

datatype jsnum = NaN | PosInfinity | NegInfinity | Finite rat

definition isNaN :: "jsnum \<Rightarrow> bool" where
  "isNaN n \<longleftrightarrow> n = NaN"

definition negate :: "jsnum \<Rightarrow> jsnum" where
  "negate n = (case n of NaN \<Rightarrow> NaN | PosInfinity \<Rightarrow> NegInfinity | NegInfinity \<Rightarrow> PosInfinity
     | Finite q \<Rightarrow> Finite (- q))"

definition is_digit :: "nat \<Rightarrow> bool" where
  "is_digit c \<longleftrightarrow> 0x30 \<le> c \<and> c \<le> 0x39"

text \<open>The value of a digit in a radix up to 16, if it is one.\<close>

definition digit_value :: "nat \<Rightarrow> nat \<Rightarrow> nat option" where
  "digit_value radix c =
     (let v = (if 0x30 \<le> c \<and> c \<le> 0x39 then Some (c - 0x30)
               else if 0x61 \<le> c \<and> c \<le> 0x66 then Some (c - 0x61 + 10)
               else if 0x41 \<le> c \<and> c \<le> 0x46 then Some (c - 0x41 + 10)
               else None)
      in case v of None \<Rightarrow> None | Some d \<Rightarrow> if d < radix then Some d else None)"

fun digits_value :: "nat \<Rightarrow> nat \<Rightarrow> jstring \<Rightarrow> nat option" where
  "digits_value radix acc [] = Some acc"
| "digits_value radix acc (c # cs) =
     (case digit_value radix c of None \<Rightarrow> None
      | Some d \<Rightarrow> digits_value radix (acc * radix + d) cs)"

text \<open>A non-empty run of digits in the radix, and nothing else.\<close>

definition radix_literal :: "nat \<Rightarrow> jstring \<Rightarrow> jsnum" where
  "radix_literal radix ds =
     (if ds = [] then NaN
      else case digits_value radix 0 ds of None \<Rightarrow> NaN | Some n \<Rightarrow> Finite (of_nat n))"

text \<open>
  ExponentPart, optional: nothing, or \<^verbatim>\<open>e\<close> or \<^verbatim>\<open>E\<close>, an optional sign and at least one
  decimal digit.
\<close>

definition signed_integer :: "jstring \<Rightarrow> int option" where
  "signed_integer s =
     (case s of [] \<Rightarrow> None
      | c # cs \<Rightarrow>
          let ds = (if c = 0x2B \<or> c = 0x2D then cs else s) in
          if ds = [] then None
          else case digits_value 10 0 ds of None \<Rightarrow> None
               | Some n \<Rightarrow> Some (if c = 0x2D then - int n else int n))"

definition exponent_part :: "jstring \<Rightarrow> int option" where
  "exponent_part s =
     (case s of [] \<Rightarrow> Some 0
      | c # cs \<Rightarrow> if c = 0x65 \<or> c = 0x45 then signed_integer cs else None)"

text \<open>
  StrUnsignedDecimalLiteral: \<^verbatim>\<open>Infinity\<close>, or an integer part, an optional dot with a
  fraction part, and an exponent; at least one digit before the exponent.
\<close>

definition scale10 :: "rat \<Rightarrow> int \<Rightarrow> rat" where
  "scale10 m e = (if 0 \<le> e then m * 10 ^ nat e else m / 10 ^ nat (- e))"

definition unsigned_decimal :: "jstring \<Rightarrow> jsnum" where
  "unsigned_decimal s =
     (if s = ascii ''Infinity'' then PosInfinity
      else
        let ip = takeWhile is_digit s;
            r1 = dropWhile is_digit s;
            dot = (r1 \<noteq> [] \<and> hd r1 = 0x2E);
            fp = (if dot then takeWhile is_digit (tl r1) else []);
            r2 = (if dot then dropWhile is_digit (tl r1) else r1)
        in if ip = [] \<and> fp = [] then NaN
           else case (digits_value 10 0 (ip @ fp), exponent_part r2) of
                  (Some m, Some e) \<Rightarrow> Finite (scale10 (of_nat m) (e - int (length fp)))
                | _ \<Rightarrow> NaN)"

definition signed_decimal :: "jstring \<Rightarrow> jsnum" where
  "signed_decimal s =
     (case s of [] \<Rightarrow> NaN
      | c # cs \<Rightarrow> if c = 0x2B then unsigned_decimal cs
                 else if c = 0x2D then negate (unsigned_decimal cs)
                 else unsigned_decimal s)"

definition Number_str :: "jstring \<Rightarrow> jsnum" where
  "Number_str s0 =
     (let s = trim s0 in
      if s = [] then Finite 0
      else if take 2 s = ascii ''0x'' \<or> take 2 s = ascii ''0X'' then radix_literal 16 (drop 2 s)
      else if take 2 s = ascii ''0o'' \<or> take 2 s = ascii ''0O'' then radix_literal 8 (drop 2 s)
      else if take 2 s = ascii ''0b'' \<or> take 2 s = ascii ''0B'' then radix_literal 2 (drop 2 s)
      else signed_decimal s)"

text \<open>\<^verbatim>\<open>s.replace(",", ".")\<close>: a string pattern replaces its first occurrence only.\<close>

fun replace_first :: "nat \<Rightarrow> nat \<Rightarrow> jstring \<Rightarrow> jstring" where
  "replace_first x y [] = []"
| "replace_first x y (c # cs) = (if c = x then y # cs else c # replace_first x y cs)"

text \<open>
  \<^verbatim>\<open>
  function toNumber(val) {
    if (val === null || val === undefined) return undefined;
    const s = String(val).trim();
    if (s === "") return undefined;
    const normalized = s.replace(",", ".");
    const n = Number(normalized);
    return isNaN(n) ? undefined : n;
  }
  \<close>
  \<^verbatim>\<open>undefined\<close> is \<open>None\<close>.
\<close>

definition toNumber :: "jsval \<Rightarrow> jsnum option" where
  "toNumber val =
     (if val = JNull \<or> val = JUndefined then None
      else
        let s = trim (String_js val) in
        if s = [] then None
        else
          let normalized = replace_first 0x2C 0x2E s;
              n = Number_str normalized
          in if isNaN n then None else Some n)"

section \<open>Normalization as the specification words it\<close>

text \<open>
  The specification describes normalization by its result rather than by the chain of
  replacements: each character is lower-cased and the Turkish letters are folded to their
  ASCII base letter, every other character outside \<open>a-z\<close> and \<open>0-9\<close> separates words,
  and the words are joined by single spaces. \<open>normalize_spec\<close> is that description, to be
  compared with \<open>normalizeFull\<close>.
\<close>

definition fold_unit :: "nat \<Rightarrow> nat" where
  "fold_unit c =
     (let l = lower_unit c in
      if l = 0x131 \<or> l = 0x130 then 0x69
      else if l = 0x15F then 0x73
      else if l = 0x11F then 0x67
      else if l = 0xFC then 0x75
      else if l = 0xF6 then 0x6F
      else if l = 0xE7 then 0x63
      else l)"

text \<open>The maximal runs of characters of \<open>a-z\<close> and \<open>0-9\<close>, in order.\<close>

function alnum_runs :: "jstring \<Rightarrow> jstring list" where
  "alnum_runs [] = []"
| "alnum_runs (c # cs) =
     (if is_alnum c then (c # takeWhile is_alnum cs) # alnum_runs (dropWhile is_alnum cs)
      else alnum_runs cs)"
  by pat_completeness auto
termination
  by (relation "measure length") (auto simp: less_Suc_eq_le length_dropWhile_le)

fun join_words :: "jstring list \<Rightarrow> jstring" where
  "join_words [] = []"
| "join_words [w] = w"
| "join_words (w # v # ws) = w @ 0x20 # join_words (v # ws)"

definition normalize_spec :: "jstring \<Rightarrow> jstring" where
  "normalize_spec s = join_words (alnum_runs (map fold_unit s))"

text \<open>
  Auxiliary notions for comparing the two: what \<^verbatim>\<open>[^a-z0-9 ]\<close> does to one code unit,
  strings over \<open>a-z\<close>, \<open>0-9\<close> and the space, and trimming on the right only.
\<close>

definition keep_unit :: "nat \<Rightarrow> nat" where
  "keep_unit c = (if is_alnum c \<or> c = 0x20 then c else 0x20)"

definition spaced :: "jstring \<Rightarrow> bool" where
  "spaced u \<longleftrightarrow> (\<forall>c \<in> set u. is_alnum c \<or> c = 0x20)"

definition rtrim :: "jstring \<Rightarrow> jstring" where
  "rtrim x = rev (dropWhile is_ws (rev x))"

text \<open>
  The code units that can occur in a string that \<^verbatim>\<open>Number\<close> reads as a number: white space,
  digits, signs, the dot, the letters of the radix prefixes, of the hexadecimal digits, of
  the exponent mark and of \<^verbatim>\<open>Infinity\<close>.
\<close>

definition numeric_unit :: "nat \<Rightarrow> bool" where
  "numeric_unit c \<longleftrightarrow>
     is_ws c \<or> (0x30 \<le> c \<and> c \<le> 0x39) \<or> c = 0x2B \<or> c = 0x2D \<or> c = 0x2E \<or>
     (0x61 \<le> c \<and> c \<le> 0x66) \<or> (0x41 \<le> c \<and> c \<le> 0x46) \<or>
     c \<in> set (ascii ''xXoObBInity'')"

section \<open>The intent router\<close>

text \<open>
  Modelled from the spec: the rule-based intent router (normalizer with tokens, intent
  matcher, intent refiner, the time-range rule of the plan synthesizer and the pipeline
  \<open>analyze\<close>). Its Python sources (\<^verbatim>\<open>advanced_intent_router.py\<close>, \<^verbatim>\<open>canonical_questions.py\<close>,
  \<^verbatim>\<open>nlp_utils.py\<close>, \<^verbatim>\<open>models.py\<close>) are not in the repository excerpt; only the README that
  lists the twelve archetypes with their trigger words is. Every definition of this
  section follows sections 3, 4 and 7 of the specification, and the catalogue follows
  the README.
\<close>

subsection \<open>Data model\<close>

datatype QuestionType =
  MATERIAL_USAGE | COST_ANALYSIS | MAINTENANCE_HISTORY | FAULT_ANALYSIS | VEHICLE_BASED
  | CUSTOMER_BASED | SERVICE_BASED | TIME_SERIES | SEASONAL | TOP_ENTITIES | DISTRIBUTION
  | COMPARISON

datatype Season = winter | spring | summer | autumn

datatype Dimension =
  vehicleId | customerId | serviceLocation | vehicleType | manufacturer | materialName
  | faultCode | year | month | season | verbType

record EntityBag =
  years :: "int list"
  months :: "nat list"
  seasons :: "Season list"
  vehicleIds :: "jstring list"
  customerIds :: "jstring list"
  serviceIds :: "jstring list"
  vehicleTypes :: "jstring list"
  manufacturers :: "jstring list"
  faultCodes :: "jstring list"
  materialKeywords :: "jstring list"
  hasTopSignal :: bool
  topLimit :: "nat option"
  comparisonEntities :: "jstring list"

text \<open>A trigger is a keyword or a phrase, held as the list of its words.\<close>

record CanonicalQuestion =
  qtype :: QuestionType
  triggers :: "jstring list list"
  requiredDimensions :: "Dimension list"
  optionalDimensions :: "Dimension list"
  metrics :: "string list"
  defaultSort :: string
  defaultFilters :: "(string \<times> jsval) list"

record NormalizedText =
  folded :: jstring
  tokens :: "jstring list"

record MatchResult =
  primaryQuestion :: CanonicalQuestion
  primaryScore :: rat
  runnerUp :: "(CanonicalQuestion \<times> rat) option"

text \<open>An absolute instant, as a UTC calendar date and time of day.\<close>

datatype instant = UTC (inst_year: int) (inst_month: nat) (inst_day: nat) (inst_hour: nat) (inst_minute: nat)

datatype direction = Ascending | Descending

datatype filter_value = Equals jsval | InSet "jsval list" | InRange jsval jsval

record QueryPlan =
  groupBy :: "Dimension list"
  plan_metrics :: "string list"
  filters :: "(string \<times> filter_value) list"
  timeRange :: "(instant \<times> instant) option"
  sort :: "string \<times> direction"
  limit :: "nat option"

datatype outcome = Plan QueryPlan | IncompletePlan "Dimension list" | EmptyQuestion

subsection \<open>Normalizer\<close>

text \<open>
  Modelled from the spec: the normalizer of \<^verbatim>\<open>nlp_utils.py\<close>, which is not in the
  repository excerpt. Section 4.1: the folded string is kept whole for entity extraction, and its words
  without the stop words are the tokens for trigger matching. The stop-word list is fixed
  but not given by the specification, so it is a parameter. The folding is
  \<open>normalize_spec\<close>; the specification gives no table for diacritics beyond the Turkish
  letters, and they separate words here.
\<close>

definition normalize :: "jstring list \<Rightarrow> jstring \<Rightarrow> NormalizedText" where
  "normalize stop_words raw =
     \<lparr>folded = normalize_spec raw,
      tokens = filter (\<lambda>w. w \<notin> set stop_words) (alnum_runs (map fold_unit raw))\<rparr>"

subsection \<open>Intent matcher\<close>

text \<open>
  Modelled from the spec: the matcher of \<^verbatim>\<open>advanced_intent_router.py\<close>, which is not in
  the repository excerpt. Section 4.3. A trigger is present when all its words occur among the tokens
  (co-occurrence, not adjacency); the score of an archetype is the fraction of its
  triggers that are present.
\<close>

definition trigger_present :: "jstring list \<Rightarrow> jstring list \<Rightarrow> bool" where
  "trigger_present toks trigger \<longleftrightarrow> list_all (\<lambda>w. w \<in> set toks) trigger"

definition score :: "jstring list \<Rightarrow> CanonicalQuestion \<Rightarrow> rat" where
  "score toks q =
     (if triggers q = [] then 0
      else of_nat (length (filter (trigger_present toks) (triggers q)))
           / of_nat (length (triggers q)))"

text \<open>
  The feasibility check of the tie-break: a required dimension is satisfied when the
  entity type it corresponds to was extracted; an archetype is better satisfied when
  fewer of its required dimensions are left unsatisfied.
\<close>

fun entity_present :: "EntityBag \<Rightarrow> Dimension \<Rightarrow> bool" where
  "entity_present bag vehicleId = (vehicleIds bag \<noteq> [])"
| "entity_present bag customerId = (customerIds bag \<noteq> [])"
| "entity_present bag serviceLocation = (serviceIds bag \<noteq> [])"
| "entity_present bag vehicleType = (vehicleTypes bag \<noteq> [])"
| "entity_present bag manufacturer = (manufacturers bag \<noteq> [])"
| "entity_present bag materialName = (materialKeywords bag \<noteq> [])"
| "entity_present bag faultCode = (faultCodes bag \<noteq> [])"
| "entity_present bag year = (years bag \<noteq> [])"
| "entity_present bag month = (months bag \<noteq> [])"
| "entity_present bag season = (seasons bag \<noteq> [])"
| "entity_present bag verbType = False"

definition unsatisfied :: "EntityBag \<Rightarrow> CanonicalQuestion \<Rightarrow> nat" where
  "unsatisfied bag q = length (filter (\<lambda>d. \<not> entity_present bag d) (requiredDimensions q))"

text \<open>
  The fixed priority ordering: MAINTENANCE_HISTORY, FAULT_ANALYSIS, MATERIAL_USAGE,
  COST_ANALYSIS, VEHICLE_BASED, CUSTOMER_BASED, SERVICE_BASED, TIME_SERIES, SEASONAL,
  TOP_ENTITIES, DISTRIBUTION, COMPARISON.
\<close>

fun priority :: "QuestionType \<Rightarrow> nat" where
  "priority MAINTENANCE_HISTORY = 0"
| "priority FAULT_ANALYSIS = 1"
| "priority MATERIAL_USAGE = 2"
| "priority COST_ANALYSIS = 3"
| "priority VEHICLE_BASED = 4"
| "priority CUSTOMER_BASED = 5"
| "priority SERVICE_BASED = 6"
| "priority TIME_SERIES = 7"
| "priority SEASONAL = 8"
| "priority TOP_ENTITIES = 9"
| "priority DISTRIBUTION = 10"
| "priority COMPARISON = 11"

text \<open>
  \<open>preferred toks bag a b\<close>: \<open>a\<close> wins against \<open>b\<close>. The higher score wins; among equal
  scores the archetype with fewer unsatisfied required dimensions; if still tied, the one
  earlier in the priority ordering.
\<close>

definition preferred :: "jstring list \<Rightarrow> EntityBag \<Rightarrow> CanonicalQuestion \<Rightarrow> CanonicalQuestion \<Rightarrow> bool" where
  "preferred toks bag a b \<longleftrightarrow>
     score toks b < score toks a \<or>
     (score toks a = score toks b \<and>
       (unsatisfied bag a < unsatisfied bag b \<or>
        (unsatisfied bag a = unsatisfied bag b \<and> priority (qtype a) < priority (qtype b))))"

text \<open>One pass over the catalogue, in its iteration order, keeping the preferred candidate.\<close>

fun best :: "jstring list \<Rightarrow> EntityBag \<Rightarrow> CanonicalQuestion \<Rightarrow> CanonicalQuestion list \<Rightarrow> CanonicalQuestion" where
  "best toks bag cur [] = cur"
| "best toks bag cur (q # qs) = best toks bag (if preferred toks bag q cur then q else cur) qs"

text \<open>
  The matcher over a catalogue. The runner-up is the best of the other entries. A
  catalogue with no entry has no best candidate: that is \<open>None\<close>.
\<close>

definition match_intent :: "CanonicalQuestion list \<Rightarrow> NormalizedText \<Rightarrow> EntityBag \<Rightarrow> MatchResult option" where
  "match_intent cat nt bag =
     (case cat of
        [] \<Rightarrow> None
      | q # qs \<Rightarrow>
          let p = best (tokens nt) bag q qs in
          Some \<lparr>primaryQuestion = p,
                primaryScore = score (tokens nt) p,
                runnerUp = (case remove1 p cat of
                              [] \<Rightarrow> None
                            | r # rs \<Rightarrow> let u = best (tokens nt) bag r rs
                                        in Some (u, score (tokens nt) u))\<rparr>)"

subsection \<open>Intent refiner\<close>

text \<open>
  Modelled from the spec: the refiner of \<^verbatim>\<open>advanced_intent_router.py\<close>, which is not in
  the repository excerpt. Section 4.4: an ordered list of override rules, each a pattern on the match and the
  entities with the archetype it forces; the first rule that matches wins, and with none
  the matcher's primary choice stands. The specification names classes of rules, not the
  list, so the list is a parameter.
\<close>

type_synonym refine_rule = "(MatchResult \<Rightarrow> EntityBag \<Rightarrow> bool) \<times> CanonicalQuestion"

fun refine :: "refine_rule list \<Rightarrow> MatchResult \<Rightarrow> EntityBag \<Rightarrow> CanonicalQuestion" where
  "refine [] m bag = primaryQuestion m"
| "refine ((pattern, forced) # rules) m bag =
     (if pattern m bag then forced else refine rules m bag)"

subsection \<open>Time range of the plan\<close>

text \<open>
  Modelled from the spec: the time-range rule of the plan synthesizer of
  \<^verbatim>\<open>advanced_intent_router.py\<close>, which is not in the repository excerpt.
  Section 4.5. With no year there is no time range. Otherwise the range is the closed
  year span as instants: from January 1st, 00:00 of the least year to January 1st, 00:00
  of the year after the greatest. Month and season entities narrow the range only when
  exactly one year is present. The specification does not say to what; here the range
  becomes the smallest run of whole months of that year that holds every named month and
  every month of a named season.
\<close>

fun least :: "'a::linorder \<Rightarrow> 'a list \<Rightarrow> 'a" where
  "least m [] = m"
| "least m (x # xs) = least (min m x) xs"

fun greatest :: "'a::linorder \<Rightarrow> 'a list \<Rightarrow> 'a" where
  "greatest m [] = m"
| "greatest m (x # xs) = greatest (max m x) xs"

fun season_months :: "Season \<Rightarrow> nat list" where
  "season_months winter = [12, 1, 2]"
| "season_months spring = [3, 4, 5]"
| "season_months summer = [6, 7, 8]"
| "season_months autumn = [9, 10, 11]"

definition month_window :: "int \<Rightarrow> nat \<Rightarrow> nat list \<Rightarrow> instant \<times> instant" where
  "month_window y m ms =
     (let lo = least m ms; hi = greatest m ms
      in (UTC y lo 1 0 0, if 12 \<le> hi then UTC (y + 1) 1 1 0 0 else UTC y (hi + 1) 1 0 0))"

definition plan_timeRange :: "EntityBag \<Rightarrow> (instant \<times> instant) option" where
  "plan_timeRange bag =
     (case years bag of
        [] \<Rightarrow> None
      | y # ys \<Rightarrow>
          let lo = least y ys; hi = greatest y ys in
          if lo = hi then
            (case months bag @ concat (map season_months (seasons bag)) of
               [] \<Rightarrow> Some (UTC lo 1 1 0 0, UTC (hi + 1) 1 1 0 0)
             | m # ms \<Rightarrow> Some (month_window lo m ms))
          else Some (UTC lo 1 1 0 0, UTC (hi + 1) 1 1 0 0))"

subsection \<open>The pipeline\<close>

text \<open>
  Modelled from the spec: the entry point \<^verbatim>\<open>analyze_question\<close> of
  \<^verbatim>\<open>advanced_intent_router.py\<close>, which is not in the repository excerpt.
  Section 2: free text, normalizer, entity extractor, intent matcher, intent refiner, plan
  synthesizer. An input that normalizes to no tokens ends the pipeline with
  \<open>EmptyQuestion\<close> before any other stage runs. The extractor's dictionaries, the refiner's
  rule list and the schema registry behind the synthesizer are static inputs that the
  specification leaves to configuration, so the router holds them as parameters; the
  current-year bound of year validation is part of the extractor handed in.
\<close>

record router =
  stop_words :: "jstring list"
  catalogue :: "CanonicalQuestion list"
  extractor :: "jstring \<Rightarrow> NormalizedText \<Rightarrow> EntityBag"
  refine_rules :: "refine_rule list"
  synthesize :: "CanonicalQuestion \<Rightarrow> EntityBag \<Rightarrow> outcome"

datatype router_error = EmptyCatalogue

definition analyze :: "router \<Rightarrow> jstring \<Rightarrow> router_error + outcome" where
  "analyze r raw =
     (let nt = normalize (stop_words r) raw in
      if tokens nt = [] then Inr EmptyQuestion
      else
        let bag = extractor r raw nt in
        case match_intent (catalogue r) nt bag of
          None \<Rightarrow> Inl EmptyCatalogue
        | Some m \<Rightarrow> Inr (synthesize r (refine (refine_rules r) m bag) bag))"

subsection \<open>The catalogue of the README\<close>

text \<open>
  Modelled from the spec: the canonical-question catalogue, static data of
  \<^verbatim>\<open>canonical_questions.py\<close>, which is not in the repository excerpt. The twelve entries are
  those of the README, in the README's order, each trigger in its normalized form (as the
  tokens are) and split into its words. The README marks the dimensions of the last three
  archetypes as dynamic; they have none here. It gives no sort key per archetype; the one of
  its template entry, \<^verbatim>\<open>count\<close>, stands for all.
\<close>

definition phrase :: "string list \<Rightarrow> jstring list" where
  "phrase ws = map ascii ws"

definition archetype ::
  "QuestionType \<Rightarrow> string list list \<Rightarrow> Dimension list \<Rightarrow> Dimension list \<Rightarrow> string list \<Rightarrow>
   (string \<times> jsval) list \<Rightarrow> CanonicalQuestion" where
  "archetype t trig req opt ms fs =
     \<lparr>qtype = t, triggers = map phrase trig, requiredDimensions = req,
      optionalDimensions = opt, metrics = ms, defaultSort = ''count'', defaultFilters = fs\<rparr>"

definition CATALOGUE :: "CanonicalQuestion list" where
  "CATALOGUE =
    [archetype MATERIAL_USAGE
       [[''malzeme''], [''parca''], [''kullanilan''], [''malzeme'', ''kullanim''], [''malzeme'', ''dagilim'']]
       [materialName] [vehicleType, manufacturer, year, month]
       [''count'', ''sum_quantity'', ''sum_cost''] [],
     archetype COST_ANALYSIS
       [[''maliyet''], [''harcama''], [''tutar''], [''para''], [''toplam'', ''maliyet''], [''bakim'', ''maliyeti'']]
       [] [vehicleType, manufacturer, year, month, serviceLocation]
       [''count'', ''sum_cost'', ''avg_cost''] [],
     archetype MAINTENANCE_HISTORY
       [[''gecmis''], [''bakim'', ''gecmisi''], [''servis'', ''gecmisi''], [''bakim'', ''kaydi''], [''son'', ''bakim'']]
       [vehicleId] [year, month, verbType]
       [''count'', ''sum_cost'', ''avg_km''] [],
     archetype FAULT_ANALYSIS
       [[''ariza''], [''fault''], [''hata''], [''sorun''], [''ariza'', ''kodu''], [''en'', ''sik'', ''ariza'']]
       [faultCode] [vehicleType, manufacturer, year, month]
       [''count'', ''sum_cost''] [(''hasFault'', JBool True)],
     archetype VEHICLE_BASED
       [[''arac''], [''plaka''], [''vehicle''], [''kamyon''], [''otobus''], [''hangi'', ''araclar''], [''arac'', ''bazinda'']]
       [vehicleId] [vehicleType, manufacturer, year]
       [''count'', ''sum_cost'', ''avg_cost''] [],
     archetype CUSTOMER_BASED
       [[''musteri''], [''customer''], [''firma''], [''sirket''], [''hangi'', ''musteriler'']]
       [customerId] [year, month, serviceLocation]
       [''count'', ''sum_cost'', ''avg_cost''] [],
     archetype SERVICE_BASED
       [[''servis''], [''lokasyon''], [''location''], [''sube''], [''hangi'', ''servisler'']]
       [serviceLocation] [year, month, vehicleType]
       [''count'', ''sum_cost'', ''avg_cost''] [],
     archetype TIME_SERIES
       [[''trend''], [''zaman''], [''yillara''], [''aylara''], [''yillara'', ''gore''], [''donem'']]
       [year] [month, vehicleType, manufacturer]
       [''count'', ''sum_cost'', ''sum_quantity''] [],
     archetype SEASONAL
       [[''mevsim''], [''sezon''], [''kis''], [''yaz''], [''bahar''], [''sonbahar'']]
       [season] [year, vehicleType]
       [''count'', ''sum_cost'', ''avg_cost''] [],
     archetype TOP_ENTITIES
       [[''en'', ''cok''], [''en'', ''fazla''], [''en'', ''sik''], [''top''], [''ilk''], [''en'', ''yuksek'']]
       [] []
       [''count'', ''sum_cost'', ''sum_quantity''] [],
     archetype DISTRIBUTION
       [[''dagilim''], [''distribution''], [''dagiliyor''], [''oran''], [''yuzde'']]
       [] []
       [''count'', ''sum_cost''] [],
     archetype COMPARISON
       [[''karsilastir''], [''compare''], [''fark''], [''ile''], [''ve''], [''arasinda'']]
       [] []
       [''count'', ''sum_cost'', ''avg_cost''] []]"

text \<open>The bag of a question in which no entity was found.\<close>

definition no_entities :: EntityBag where
  "no_entities =
     \<lparr>years = [], months = [], seasons = [], vehicleIds = [], customerIds = [], serviceIds = [],
      vehicleTypes = [], manufacturers = [], faultCodes = [], materialKeywords = [],
      hasTopSignal = False, topLimit = None, comparisonEntities = []\<rparr>"

text \<open>
  A configuration for worked examples: two stop words, the catalogue of the README, an
  extractor that finds no entity, no override rule, and a synthesizer that groups by the
  required dimensions and takes the time range from \<open>plan_timeRange\<close>.
\<close>

definition example_router :: router where
  "example_router =
     \<lparr>stop_words = [ascii ''bir'', ascii ''bu''],
      catalogue = CATALOGUE,
      extractor = (\<lambda>raw nt. no_entities),
      refine_rules = [],
      synthesize = (\<lambda>q bag.
        Plan \<lparr>groupBy = requiredDimensions q, plan_metrics = metrics q, filters = [],
              timeRange = plan_timeRange bag, sort = (defaultSort q, Descending),
              limit = None\<rparr>)\<rparr>"

section \<open>Shape of the normalized string\<close>

lemma is_ws_alnum: "is_alnum c \<Longrightarrow> \<not> is_ws c"
  by (auto simp: is_alnum_def is_ws_def)

lemma is_ws_space: "is_ws 0x20"
  by (simp add: is_ws_def)

lemma set_replace_other: "set (replace_other s) \<subseteq> {c. is_alnum c \<or> c = 0x20}"
  by (auto simp: replace_other_def)

lemma set_collapse_ws: "set s \<subseteq> {c. is_alnum c \<or> c = 0x20} \<Longrightarrow>
    set (collapse_ws s) \<subseteq> {c. is_alnum c \<or> c = 0x20}"
proof (induction s rule: collapse_ws.induct)
  case 1
  then show ?case by simp
next
  case (2 c cs)
  have "set (dropWhile is_ws cs) \<subseteq> set cs"
    by (auto dest: set_dropWhileD)
  with 2 show ?case by auto
qed

lemma collapse_ws_hd:
  "collapse_ws s \<noteq> [] \<Longrightarrow> \<not> is_ws (hd s) \<Longrightarrow> hd (collapse_ws s) = hd s"
  by (cases s) auto

lemma collapse_ws_Nil: "collapse_ws s = [] \<longleftrightarrow> s = []"
  by (cases s) auto

lemma dropWhile_hd: "dropWhile P xs \<noteq> [] \<Longrightarrow> \<not> P (hd (dropWhile P xs))"
  using hd_dropWhile by blast

lemma successively_collapse_ws:
  "successively (\<lambda>a b. \<not> (is_ws a \<and> is_ws b)) (collapse_ws s)"
proof (induction s rule: collapse_ws.induct)
  case 1
  then show ?case by simp
next
  case (2 c cs)
  show ?case
  proof (cases "is_ws c")
    case True
    let ?r = "dropWhile is_ws cs"
    have "?r \<noteq> [] \<Longrightarrow> \<not> is_ws (hd (collapse_ws ?r))"
      using collapse_ws_hd [of ?r] dropWhile_hd [of is_ws cs] by (simp add: collapse_ws_Nil)
    with True 2 show ?thesis
      by (auto simp: successively_Cons collapse_ws_Nil)
  next
    case False
    with 2 show ?thesis
      by (auto simp: successively_Cons)
  qed
qed

lemma set_dropWhile_subset: "set (dropWhile P xs) \<subseteq> set xs"
  by (auto dest: set_dropWhileD)

lemma set_trim: "set (trim s) \<subseteq> set s"
proof -
  have "set (trim s) \<subseteq> set (dropWhile is_ws s)"
    unfolding trim_def using set_dropWhile_subset [of is_ws "rev (dropWhile is_ws s)"] by simp
  also have "\<dots> \<subseteq> set s"
    by (rule set_dropWhile_subset)
  finally show ?thesis .
qed

lemma trim_hd: "trim s \<noteq> [] \<Longrightarrow> \<not> is_ws (hd (trim s))"
proof -
  assume ne: "trim s \<noteq> []"
  let ?d = "dropWhile is_ws s"
  let ?e = "dropWhile is_ws (rev ?d)"
  from ne have e: "?e \<noteq> []" by (simp add: trim_def)
  have d: "?d \<noteq> []"
  proof
    assume z: "?d = []"
    have "?e = []" unfolding z by simp
    with e show False by contradiction
  qed
  have "rev ?d = takeWhile is_ws (rev ?d) @ ?e" by simp
  then have "?d = rev ?e @ rev (takeWhile is_ws (rev ?d))"
    by (metis rev_append rev_rev_ident)
  with e have "hd ?d = hd (rev ?e)" by (metis hd_append2 rev_is_Nil_conv)
  with dropWhile_hd [OF d] show ?thesis by (simp add: trim_def)
qed

lemma trim_last: "trim s \<noteq> [] \<Longrightarrow> \<not> is_ws (last (trim s))"
proof -
  assume ne: "trim s \<noteq> []"
  let ?e = "dropWhile is_ws (rev (dropWhile is_ws s))"
  from ne have e: "?e \<noteq> []" by (simp add: trim_def)
  have "last (trim s) = hd ?e" by (simp add: trim_def last_rev)
  with dropWhile_hd [OF e] show ?thesis by simp
qed

lemma successively_dropWhile:
  "successively P xs \<Longrightarrow> successively P (dropWhile Q xs)"
  by (induction xs) (auto simp: successively_Cons)

lemma successively_rev_sym:
  assumes "\<And>a b. P a b = P b a"
  shows "successively P (rev xs) = successively P xs"
proof -
  have "(\<lambda>x y. P y x) = P" using assms by (intro ext) simp
  then show ?thesis by (metis successively_rev)
qed

lemma successively_trim:
  assumes "successively (\<lambda>a b. \<not> (is_ws a \<and> is_ws b)) s"
  shows "successively (\<lambda>a b. \<not> (is_ws a \<and> is_ws b)) (trim s)"
proof -
  let ?P = "\<lambda>a b. \<not> (is_ws a \<and> is_ws b)"
  have sym: "\<And>a b. ?P a b = ?P b a" by blast
  have "successively ?P (dropWhile is_ws s)"
    by (rule successively_dropWhile [OF assms])
  then have "successively ?P (rev (dropWhile is_ws s))"
    using successively_rev_sym [of ?P, OF sym] by blast
  then have "successively ?P (dropWhile is_ws (rev (dropWhile is_ws s)))"
    by (rule successively_dropWhile)
  then have "successively ?P (rev (dropWhile is_ws (rev (dropWhile is_ws s))))"
    using successively_rev_sym [of ?P, OF sym] by blast
  then show ?thesis
    by (simp only: trim_def)
qed

lemma normal_form_normalizeFull: "normal_form (normalizeFull v)"
proof (cases "truthy v")
  case False
  then show ?thesis by (simp add: normalizeFull_def normal_form_def)
next
  case True
  let ?u = "collapse_ws (replace_other (fold_turkish (toLowerCase (String_js v))))"
  have r: "normalizeFull v = trim ?u" using True by (simp add: normalizeFull_def)
  have s: "set (trim ?u) \<subseteq> {c. is_alnum c \<or> c = 0x20}"
    using set_trim [of ?u] set_collapse_ws [OF set_replace_other] by blast
  have "successively (\<lambda>a b. \<not> (is_ws a \<and> is_ws b)) (trim ?u)"
    by (rule successively_trim [OF successively_collapse_ws])
  then have d: "successively (\<lambda>a b. \<not> (a = 0x20 \<and> b = 0x20)) (trim ?u)"
    by (rule successively_mono) (auto simp: is_ws_space)
  have e: "trim ?u \<noteq> [] \<Longrightarrow> hd (trim ?u) \<noteq> 0x20 \<and> last (trim ?u) \<noteq> 0x20"
    using trim_hd [of ?u] trim_last [of ?u] is_ws_space by metis
  from s d e show ?thesis
    unfolding r normal_form_def by blast
qed

lemmas normalize_eval =
  normalizeFull_def ascii_def toLowerCase_def lower_unit_def fold_turkish_def replace_all_def
  replace_other_def is_alnum_def is_ws_def trim_def

section \<open>Normalized strings are fixed points\<close>

lemma lower_unit_fixed: "is_alnum c \<or> c = 0x20 \<Longrightarrow> lower_unit c = c"
  by (auto simp: is_alnum_def lower_unit_def)

lemma toLowerCase_fixed:
  "\<forall>c \<in> set r. is_alnum c \<or> c = 0x20 \<Longrightarrow> toLowerCase r = r"
proof (induction r)
  case Nil
  then show ?case by (simp add: toLowerCase_def)
next
  case (Cons a r)
  then have "a \<noteq> 0x130" by (auto simp: is_alnum_def)
  with Cons show ?case
    using lower_unit_fixed [of a] by (simp add: toLowerCase_def)
qed

lemma replace_all_fixed: "x \<notin> set r \<Longrightarrow> replace_all x y r = r"
  by (induction r) (auto simp: replace_all_def)

lemma fold_turkish_fixed:
  assumes "\<forall>c \<in> set r. is_alnum c \<or> c = 0x20"
  shows "fold_turkish r = r"
proof -
  have "\<And>x. 0x7A < x \<Longrightarrow> x \<notin> set r"
    using assms by (auto simp: is_alnum_def)
  then show ?thesis
    by (simp add: fold_turkish_def replace_all_fixed)
qed

lemma replace_other_fixed:
  "\<forall>c \<in> set r. is_alnum c \<or> c = 0x20 \<Longrightarrow> replace_other r = r"
  by (induction r) (auto simp: replace_other_def)

lemma collapse_ws_fixed:
  "successively (\<lambda>a b. \<not> (is_ws a \<and> is_ws b)) r \<Longrightarrow>
   \<forall>c \<in> set r. is_ws c \<longrightarrow> c = 0x20 \<Longrightarrow> collapse_ws r = r"
proof (induction r rule: collapse_ws.induct)
  case 1
  then show ?case by simp
next
  case (2 c cs)
  show ?case
  proof (cases "is_ws c")
    case True
    with 2(3,4) have "dropWhile is_ws cs = cs"
      by (cases cs) (auto simp: successively_Cons)
    with True 2 show ?thesis
      by (auto simp: successively_Cons)
  next
    case False
    with 2 show ?thesis by (auto simp: successively_Cons)
  qed
qed

lemma trim_fixed:
  assumes "r \<noteq> [] \<Longrightarrow> \<not> is_ws (hd r) \<and> \<not> is_ws (last r)"
  shows "trim r = r"
proof (cases "r = []")
  case True
  then show ?thesis by (simp add: trim_def)
next
  case False
  with assms have h: "\<not> is_ws (hd r)" and l: "\<not> is_ws (last r)" by auto
  from False h have a: "dropWhile is_ws r = r" by (cases r) auto
  from False l have "\<not> is_ws (hd (rev r))" by (simp add: hd_rev)
  with False have "dropWhile is_ws (rev r) = rev r" by (cases "rev r") auto
  with a show ?thesis by (simp add: trim_def)
qed

lemma normalizeFull_fixed:
  assumes "normal_form r"
  shows "normalizeFull (JStr r) = r"
proof (cases "r = []")
  case True
  then show ?thesis by (simp add: normalizeFull_def)
next
  case False
  from assms have cs: "\<forall>c \<in> set r. is_alnum c \<or> c = 0x20"
    and sp: "successively (\<lambda>a b. \<not> (a = 0x20 \<and> b = 0x20)) r"
    and ends: "hd r \<noteq> 0x20 \<and> last r \<noteq> 0x20"
    using False by (auto simp: normal_form_def)
  have ws: "\<forall>c \<in> set r. is_ws c \<longrightarrow> c = 0x20"
    using cs is_ws_alnum by blast
  have "successively (\<lambda>a b. \<not> (is_ws a \<and> is_ws b)) r"
    using sp by (rule successively_mono) (use ws in blast)
  then have c: "collapse_ws r = r" using ws by (rule collapse_ws_fixed)
  have "hd r \<in> set r" "last r \<in> set r" using False by auto
  with ws ends have "\<not> is_ws (hd r) \<and> \<not> is_ws (last r)" by blast
  then have t: "trim r = r" by (intro trim_fixed) simp
  show ?thesis
    using False by (simp add: normalizeFull_def toLowerCase_fixed [OF cs] fold_turkish_fixed [OF cs]
        replace_other_fixed [OF cs] c t)
qed

section \<open>The operation type and its normalized form\<close>

lemma normalizeFull_js_or: "normalizeFull (js_or v (JStr [])) = normalizeFull v"
  by (simp add: normalizeFull_def js_or_def)

section \<open>The replacement chain computes the words joined by spaces\<close>

lemma toLowerCase_map: "0x130 \<notin> set s \<Longrightarrow> toLowerCase s = map lower_unit s"
  by (induction s) (auto simp: toLowerCase_def)

lemma lower_unit_not_capital:
  "c \<noteq> 0x130 \<Longrightarrow> lower_unit c \<notin> {0x130, 0x15E, 0x11E, 0xDC, 0xD6, 0xC7}"
  unfolding lower_unit_def by (simp split: if_splits) arith

lemma fold_turkish_single:
  "l \<notin> {0x130, 0x15E, 0x11E, 0xDC, 0xD6, 0xC7} \<Longrightarrow>
   fold_turkish [l] =
     [if l = 0x131 then 0x69 else if l = 0x15F then 0x73 else if l = 0x11F then 0x67
      else if l = 0xFC then 0x75 else if l = 0xF6 then 0x6F else if l = 0xE7 then 0x63 else l]"
  by (simp add: fold_turkish_def replace_all_def)

lemma fold_turkish_lower_unit:
  assumes "c \<noteq> 0x130"
  shows "fold_turkish [lower_unit c] = [fold_unit c]"
proof -
  let ?l = "lower_unit c"
  have n: "?l \<notin> {0x130, 0x15E, 0x11E, 0xDC, 0xD6, 0xC7}"
    using assms by (rule lower_unit_not_capital)
  then have "?l \<noteq> 0x130" by simp
  then show ?thesis
    unfolding fold_turkish_single [OF n] fold_unit_def Let_def by simp
qed

lemma fold_turkish_lower:
  "0x130 \<notin> set s \<Longrightarrow> fold_turkish (map lower_unit s) = map fold_unit s"
proof (induction s)
  case Nil
  then show ?case by (simp add: fold_turkish_def replace_all_def)
next
  case (Cons a s)
  have "fold_turkish (map lower_unit (a # s)) =
        fold_turkish [lower_unit a] @ fold_turkish (map lower_unit s)"
    by (simp add: fold_turkish_def replace_all_def)
  with Cons show ?case by (simp add: fold_turkish_lower_unit)
qed

lemma replace_other_map: "replace_other s = map keep_unit s"
  by (simp add: replace_other_def keep_unit_def)

lemma is_alnum_keep: "is_alnum (keep_unit c) = is_alnum c"
  by (auto simp: keep_unit_def is_alnum_def)

lemma keep_alnum: "is_alnum c \<Longrightarrow> keep_unit c = c"
  by (simp add: keep_unit_def)

lemma takeWhile_keep: "takeWhile is_alnum (map keep_unit t) = takeWhile is_alnum t"
  by (induction t) (auto simp: is_alnum_keep keep_alnum)

lemma dropWhile_keep: "dropWhile is_alnum (map keep_unit t) = map keep_unit (dropWhile is_alnum t)"
  by (induction t) (auto simp: is_alnum_keep)

lemma alnum_runs_keep: "alnum_runs (map keep_unit t) = alnum_runs t"
proof (induction t rule: alnum_runs.induct)
  case 1
  then show ?case by simp
next
  case (2 c cs)
  then show ?case
    by (simp add: is_alnum_keep keep_alnum takeWhile_keep dropWhile_keep)
qed

lemma spaced_ws: "spaced u \<Longrightarrow> c \<in> set u \<Longrightarrow> is_ws c \<longleftrightarrow> \<not> is_alnum c"
  using is_ws_alnum is_ws_space by (auto simp: spaced_def)

lemma spaced_Cons: "spaced (c # cs) \<longleftrightarrow> (is_alnum c \<or> c = 0x20) \<and> spaced cs"
  by (auto simp: spaced_def)

lemma spaced_dropWhile: "spaced u \<Longrightarrow> spaced (dropWhile Q u)"
  using set_dropWhile_subset [of Q u] by (auto simp: spaced_def)

lemma collapse_ws_lead:
  "dropWhile is_ws (collapse_ws u) = collapse_ws (dropWhile is_ws u)"
proof (cases u)
  case Nil
  then show ?thesis by simp
next
  case (Cons c cs)
  show ?thesis
  proof (cases "is_ws c")
    case True
    let ?d = "dropWhile is_ws cs"
    have "dropWhile is_ws (collapse_ws ?d) = collapse_ws ?d"
    proof (cases ?d)
      case Nil
      show ?thesis by (simp only: Nil collapse_ws.simps dropWhile.simps)
    next
      case (Cons e es)
      then have "\<not> is_ws e" using dropWhile_hd [of is_ws cs] by simp
      with Cons show ?thesis by simp
    qed
    with True Cons show ?thesis by (simp add: is_ws_space)
  next
    case False
    with Cons show ?thesis by simp
  qed
qed

lemma alnum_runs_lead: "spaced u \<Longrightarrow> alnum_runs (dropWhile is_ws u) = alnum_runs u"
proof (induction u)
  case Nil
  then show ?case by simp
next
  case (Cons c cs)
  then show ?case
    using is_ws_alnum [of c] is_ws_space by (auto simp: spaced_Cons)
qed

lemma collapse_ws_word:
  "\<forall>c \<in> set w. \<not> is_ws c \<Longrightarrow> collapse_ws (w @ r) = w @ collapse_ws r"
  by (induction w) auto

lemma trim_rtrim: "trim s = rtrim (dropWhile is_ws s)"
  by (simp add: trim_def rtrim_def)

lemma rtrim_id: "x \<noteq> [] \<Longrightarrow> \<not> is_ws (last x) \<Longrightarrow> rtrim x = x"
proof -
  assume a: "x \<noteq> []" "\<not> is_ws (last x)"
  then have "\<not> is_ws (hd (rev x))" by (simp add: hd_rev)
  with a have "dropWhile is_ws (rev x) = rev x" by (cases "rev x") auto
  then show ?thesis by (simp add: rtrim_def)
qed

lemma rtrim_append: "rtrim b \<noteq> [] \<Longrightarrow> rtrim (a @ b) = a @ rtrim b"
proof -
  assume "rtrim b \<noteq> []"
  then have "dropWhile is_ws (rev b) \<noteq> []" by (simp add: rtrim_def)
  then have "\<not> (\<forall>x \<in> set (rev b). is_ws x)" by simp
  then have "dropWhile is_ws (rev b @ rev a) = dropWhile is_ws (rev b) @ rev a"
    by (simp only: dropWhile_append if_False)
  then show ?thesis by (simp add: rtrim_def)
qed

lemma rtrim_space: "rtrim (a @ [0x20]) = rtrim a"
  by (simp add: rtrim_def is_ws_space)

lemma join_words_Cons: "ws \<noteq> [] \<Longrightarrow> join_words (w # ws) = w @ 0x20 # join_words ws"
  by (cases ws) auto

lemma alnum_runs_Nil: "alnum_runs u = [] \<longleftrightarrow> (\<forall>c \<in> set u. \<not> is_alnum c)"
  by (induction u rule: alnum_runs.induct) auto

lemma join_words_runs_Nil: "join_words (alnum_runs u) = [] \<longleftrightarrow> alnum_runs u = []"
proof (cases u rule: alnum_runs.cases)
  case 1
  then show ?thesis by simp
next
  case (2 c cs)
  show ?thesis
  proof
    assume "join_words (alnum_runs u) = []"
    show "alnum_runs u = []"
    proof (rule ccontr)
      assume n: "alnum_runs u \<noteq> []"
      then obtain w ws where w: "alnum_runs u = w # ws" by (cases "alnum_runs u") auto
      have "w \<noteq> []" using w
        by (induction u rule: alnum_runs.induct) (auto split: if_splits)
      then have "join_words (w # ws) \<noteq> []" by (cases ws) auto
      with w \<open>join_words (alnum_runs u) = []\<close> show False by simp
    qed
  qed simp
qed

lemma rtrim_collapse_runs:
  "spaced u \<Longrightarrow> u = [] \<or> is_alnum (hd u) \<Longrightarrow>
   rtrim (collapse_ws u) = join_words (alnum_runs u)"
proof (induction "length u" arbitrary: u rule: less_induct)
  case less
  show ?case
  proof (cases u)
    case Nil
    then show ?thesis by (simp add: rtrim_def)
  next
    case (Cons c cs)
    with less.prems have c: "is_alnum c" by simp
    let ?w = "c # takeWhile is_alnum cs"
    let ?r = "dropWhile is_alnum cs"
    have u: "u = ?w @ ?r" using Cons by simp
    have w_ws: "\<forall>x \<in> set ?w. \<not> is_ws x"
      using c is_ws_alnum by (auto dest: set_takeWhileD)
    have col: "collapse_ws u = ?w @ collapse_ws ?r"
      using collapse_ws_word [OF w_ws, of ?r] u by simp
    have runs: "alnum_runs u = ?w # alnum_runs ?r"
      using Cons c by simp
    have last_w: "\<not> is_ws (last ?w)"
      using w_ws last_in_set [of ?w] by blast
    have sp_cs: "spaced cs" using less.prems(1) Cons by (simp add: spaced_Cons)
    show ?thesis
    proof (cases ?r)
      case Nil
      have "collapse_ws u = ?w" unfolding col Nil by simp
      moreover have "alnum_runs u = [?w]" unfolding runs Nil by simp
      ultimately show ?thesis
        using rtrim_id [OF _ last_w] by simp
    next
      case r: (Cons d ds)
      have "\<not> is_alnum d" using dropWhile_hd [of is_alnum cs] r by simp
      moreover have "d \<in> set cs" using set_dropWhile_subset [of is_alnum cs] r by auto
      ultimately have d: "d = 0x20" using sp_cs by (auto simp: spaced_def)
      let ?t = "dropWhile is_ws ds"
      have sp_ds: "spaced ds"
        using spaced_dropWhile [OF sp_cs, of is_alnum] r by (simp add: spaced_Cons)
      have sp_t: "spaced ?t" by (rule spaced_dropWhile [OF sp_ds])
      have col_r: "collapse_ws ?r = 0x20 # collapse_ws ?t"
        using r d by (simp add: is_ws_space)
      have runs_r: "alnum_runs ?r = alnum_runs ?t"
        using r d alnum_runs_lead [OF sp_ds] by (simp add: is_alnum_def)
      have len: "length ?t < length u"
      proof -
        have "length ?t \<le> length ds" by (rule length_dropWhile_le)
        also have "\<dots> < length ?r" using r by simp
        also have "\<dots> \<le> length cs" by (rule length_dropWhile_le)
        also have "\<dots> < length u" using Cons by simp
        finally show ?thesis .
      qed
      have hd_t: "?t = [] \<or> is_alnum (hd ?t)"
      proof (cases "?t = []")
        case False
        then have "\<not> is_ws (hd ?t)" by (rule dropWhile_hd)
        moreover have "hd ?t \<in> set ?t" using False by simp
        ultimately show ?thesis using spaced_ws [OF sp_t] by blast
      qed simp
      have ih: "rtrim (collapse_ws ?t) = join_words (alnum_runs ?t)"
        by (rule less.hyps [OF len sp_t hd_t])
      show ?thesis
      proof (cases "?t = []")
        case True
        have "collapse_ws u = ?w @ [0x20]" using col col_r True by simp
        then have "rtrim (collapse_ws u) = ?w"
          using rtrim_space [of ?w] rtrim_id [OF _ last_w] by simp
        moreover have "alnum_runs u = [?w]" using runs runs_r True by simp
        ultimately show ?thesis by simp
      next
        case False
        with hd_t have "is_alnum (hd ?t)" by blast
        with False have ne: "alnum_runs ?t \<noteq> []"
          using alnum_runs_Nil [of ?t] hd_in_set [of ?t] by blast
        then have "rtrim (collapse_ws ?t) \<noteq> []"
          using ih join_words_runs_Nil [of ?t] by simp
        then have "rtrim ((?w @ [0x20]) @ collapse_ws ?t) = (?w @ [0x20]) @ rtrim (collapse_ws ?t)"
          by (rule rtrim_append)
        then have "rtrim (collapse_ws u) = ?w @ 0x20 # join_words (alnum_runs ?t)"
          using col col_r ih by simp
        moreover have "join_words (alnum_runs u) = ?w @ 0x20 # join_words (alnum_runs ?t)"
          using runs runs_r join_words_Cons [OF ne, of ?w] by simp
        ultimately show ?thesis by simp
      qed
    qed
  qed
qed

lemma trim_collapse_runs:
  assumes "spaced u"
  shows "trim (collapse_ws u) = join_words (alnum_runs u)"
proof -
  let ?t = "dropWhile is_ws u"
  have sp: "spaced ?t" by (rule spaced_dropWhile [OF assms])
  have hd_t: "?t = [] \<or> is_alnum (hd ?t)"
  proof (cases "?t = []")
    case False
    then have "\<not> is_ws (hd ?t)" by (rule dropWhile_hd)
    moreover have "hd ?t \<in> set ?t" using False by simp
    ultimately show ?thesis using spaced_ws [OF sp] by blast
  qed simp
  have "trim (collapse_ws u) = rtrim (collapse_ws ?t)"
    by (simp add: trim_rtrim collapse_ws_lead)
  also have "\<dots> = join_words (alnum_runs ?t)"
    by (rule rtrim_collapse_runs [OF sp hd_t])
  also have "\<dots> = join_words (alnum_runs u)"
    by (simp add: alnum_runs_lead [OF assms])
  finally show ?thesis .
qed

section \<open>What the number reader accepts\<close>

lemmas number_eval = toNumber_def Number_str_def signed_decimal_def unsigned_decimal_def
  exponent_part_def signed_integer_def radix_literal_def digit_value_def is_digit_def
  scale10_def negate_def isNaN_def trim_def is_ws_def ascii_def Let_def

lemma set_trim_ws: "c \<in> set s \<Longrightarrow> c \<in> set (trim s) \<or> is_ws c"
proof -
  assume c: "c \<in> set s"
  let ?d = "dropWhile is_ws s"
  have "s = takeWhile is_ws s @ ?d" by simp
  then have "set s = set (takeWhile is_ws s) \<union> set ?d" by (metis set_append)
  with c have 1: "is_ws c \<or> c \<in> set ?d" by (auto dest: set_takeWhileD)
  have "rev ?d = takeWhile is_ws (rev ?d) @ dropWhile is_ws (rev ?d)" by simp
  then have "set (rev ?d) = set (takeWhile is_ws (rev ?d)) \<union> set (dropWhile is_ws (rev ?d))"
    by (metis set_append)
  then have "c \<in> set ?d \<Longrightarrow> is_ws c \<or> c \<in> set (trim s)"
    by (auto simp: trim_def dest: set_takeWhileD)
  with 1 show ?thesis by blast
qed

lemma replace_first_keeps: "c \<in> set s \<Longrightarrow> c \<noteq> x \<Longrightarrow> c \<in> set (replace_first x y s)"
  by (induction s) auto

lemma replace_first_second:
  "2 \<le> count_list s x \<Longrightarrow> x \<in> set (replace_first x y s)"
proof (induction s)
  case Nil
  then show ?case by simp
next
  case (Cons c cs)
  show ?case
  proof (cases "c = x")
    case True
    with Cons.prems have "1 \<le> count_list cs x" by simp
    then have "x \<in> set cs" by (metis count_list_0_iff not_one_le_zero)
    with True show ?thesis by simp
  next
    case False
    with Cons show ?thesis by simp
  qed
qed

lemma count_list_dropWhile: "\<not> P x \<Longrightarrow> count_list (dropWhile P s) x = count_list s x"
  by (induction s) auto

lemma count_list_trim: "\<not> is_ws x \<Longrightarrow> count_list (trim s) x = count_list s x"
  by (simp add: trim_def count_list_rev count_list_dropWhile)

lemma digit_value_numeric: "digit_value r c = Some d \<Longrightarrow> numeric_unit c"
  by (auto simp: digit_value_def numeric_unit_def Let_def split: if_splits option.splits)

lemma digits_value_numeric:
  "digits_value r acc ds = Some n \<Longrightarrow> c \<in> set ds \<Longrightarrow> numeric_unit c"
proof (induction ds arbitrary: acc)
  case Nil
  then show ?case by simp
next
  case (Cons d ds)
  then show ?case
    by (auto split: option.splits dest: digit_value_numeric)
qed

lemma is_digit_numeric: "is_digit c \<Longrightarrow> numeric_unit c"
  by (simp add: is_digit_def numeric_unit_def)

lemma radix_literal_numeric:
  "radix_literal r ds \<noteq> NaN \<Longrightarrow> c \<in> set ds \<Longrightarrow> numeric_unit c"
  by (auto simp: radix_literal_def split: if_splits option.splits dest: digits_value_numeric)

lemma numeric_marks:
  "numeric_unit 0x2B" "numeric_unit 0x2D" "numeric_unit 0x2E" "numeric_unit 0x65" "numeric_unit 0x45"
  by (simp_all add: numeric_unit_def)

lemma signed_integer_numeric:
  assumes "signed_integer s = Some e" and "c \<in> set s"
  shows "numeric_unit c"
proof (cases s)
  case Nil
  with assms(2) show ?thesis by simp
next
  case (Cons d ds)
  let ?ds = "if d = 0x2B \<or> d = 0x2D then ds else s"
  from assms(1) Cons obtain n where n: "digits_value 10 0 ?ds = Some n"
    by (auto simp: signed_integer_def Let_def split: if_splits option.splits)
  show ?thesis
  proof (cases "d = 0x2B \<or> d = 0x2D")
    case True
    with n have "digits_value 10 0 ds = Some n" by (simp only: if_True)
    then have "\<And>x. x \<in> set ds \<Longrightarrow> numeric_unit x"
      by (rule digits_value_numeric)
    moreover from True have "numeric_unit d" using numeric_marks by blast
    ultimately show ?thesis using assms(2) Cons by auto
  next
    case False
    with n have "digits_value 10 0 s = Some n" by (simp only: if_False)
    then show ?thesis using assms(2) by (rule digits_value_numeric)
  qed
qed

lemma exponent_part_numeric:
  assumes "exponent_part s = Some e" and "c \<in> set s"
  shows "numeric_unit c"
proof (cases s)
  case Nil
  with assms(2) show ?thesis by simp
next
  case (Cons d ds)
  with assms(1) have d: "d = 0x65 \<or> d = 0x45" and ds: "signed_integer ds = Some e"
    by (auto simp: exponent_part_def split: if_splits)
  from d have "numeric_unit d" using numeric_marks by blast
  with assms(2) Cons signed_integer_numeric [OF ds] show ?thesis by auto
qed

lemma Infinity_numeric: "c \<in> set (ascii ''Infinity'') \<Longrightarrow> numeric_unit c"
  by (auto simp: numeric_unit_def ascii_def)

lemma unsigned_decimal_numeric:
  assumes "unsigned_decimal s \<noteq> NaN" and "c \<in> set s"
  shows "numeric_unit c"
proof (cases "s = ascii ''Infinity''")
  case True
  with assms(2) show ?thesis by (simp add: Infinity_numeric)
next
  case False
  let ?ip = "takeWhile is_digit s"
  let ?r1 = "dropWhile is_digit s"
  let ?dot = "?r1 \<noteq> [] \<and> hd ?r1 = 0x2E"
  let ?fp = "if ?dot then takeWhile is_digit (tl ?r1) else []"
  let ?r2 = "if ?dot then dropWhile is_digit (tl ?r1) else ?r1"
  from assms(1) False obtain e where e: "exponent_part ?r2 = Some e"
    by (auto simp: unsigned_decimal_def Let_def split: if_splits option.splits)
  have s: "s = ?ip @ ?r1" by simp
  have ip: "\<And>x. x \<in> set ?ip \<Longrightarrow> numeric_unit x"
    by (auto dest: set_takeWhileD is_digit_numeric)
  have r1: "\<And>x. x \<in> set ?r1 \<Longrightarrow> numeric_unit x"
  proof (cases ?dot)
    case True
    fix x assume x: "x \<in> set ?r1"
    from True have "?r1 = 0x2E # tl ?r1" by (cases ?r1) auto
    moreover have "tl ?r1 = takeWhile is_digit (tl ?r1) @ dropWhile is_digit (tl ?r1)" by simp
    ultimately have "set ?r1 = {0x2E} \<union> set (takeWhile is_digit (tl ?r1)) \<union>
        set (dropWhile is_digit (tl ?r1))"
      by (metis Un_insert_left list.simps(15) set_append sup_bot_left)
    with x consider "x = 0x2E" | "x \<in> set (takeWhile is_digit (tl ?r1))"
      | "x \<in> set (dropWhile is_digit (tl ?r1))" by blast
    then show "numeric_unit x"
    proof cases
      case 1
      then show ?thesis by (simp add: numeric_unit_def)
    next
      case 2
      then show ?thesis by (auto dest: set_takeWhileD is_digit_numeric)
    next
      case 3
      from e True have "exponent_part (dropWhile is_digit (tl ?r1)) = Some e"
        by simp
      then show ?thesis using 3 by (rule exponent_part_numeric)
    qed
  next
    case False
    fix x assume x: "x \<in> set ?r1"
    from e False have "exponent_part ?r1 = Some e" by (simp split: if_splits)
    then show "numeric_unit x" using x by (rule exponent_part_numeric)
  qed
  from assms(2) s have "c \<in> set ?ip \<or> c \<in> set ?r1" by (metis Un_iff set_append)
  with ip r1 show ?thesis by blast
qed

lemma negate_NaN: "negate n = NaN \<longleftrightarrow> n = NaN"
  by (cases n) (simp_all add: negate_def)

lemma signed_decimal_numeric:
  assumes "signed_decimal s \<noteq> NaN" and "c \<in> set s"
  shows "numeric_unit c"
proof (cases s)
  case Nil
  with assms(2) show ?thesis by simp
next
  case (Cons d ds)
  show ?thesis
  proof (cases "d = 0x2B \<or> d = 0x2D")
    case True
    with assms(1) Cons have "unsigned_decimal ds \<noteq> NaN"
      by (auto simp: signed_decimal_def negate_NaN split: if_splits)
    then have "\<And>x. x \<in> set ds \<Longrightarrow> numeric_unit x"
      by (rule unsigned_decimal_numeric)
    moreover from True have "numeric_unit d" using numeric_marks by blast
    ultimately show ?thesis using assms(2) Cons by auto
  next
    case False
    with assms(1) Cons have "unsigned_decimal s \<noteq> NaN"
      by (auto simp: signed_decimal_def)
    then show ?thesis using assms(2) by (rule unsigned_decimal_numeric)
  qed
qed

lemma prefix_numeric:
  assumes "take 2 s \<in> set (map ascii [''0x'', ''0X'', ''0o'', ''0O'', ''0b'', ''0B''])"
    and "c \<in> set (take 2 s)"
  shows "numeric_unit c"
  using assms by (auto simp: ascii_def numeric_unit_def)

lemma Number_str_numeric:
  assumes "Number_str t \<noteq> NaN" and "c \<in> set t"
  shows "numeric_unit c"
proof -
  let ?s = "trim t"
  from assms(2) have "c \<in> set ?s \<or> is_ws c" by (rule set_trim_ws)
  moreover have "is_ws c \<Longrightarrow> numeric_unit c" by (simp add: numeric_unit_def)
  moreover have "c \<in> set ?s \<Longrightarrow> numeric_unit c"
  proof -
    assume c: "c \<in> set ?s"
    then have ne: "?s \<noteq> []" by auto
    show ?thesis
    proof (cases "take 2 ?s \<in> set (map ascii [''0x'', ''0X'', ''0o'', ''0O'', ''0b'', ''0B''])")
      case True
      then obtain r where "radix_literal r (drop 2 ?s) \<noteq> NaN"
        using assms(1) ne by (auto simp: Number_str_def Let_def split: if_splits)
      then have "\<And>x. x \<in> set (drop 2 ?s) \<Longrightarrow> numeric_unit x"
        by (rule radix_literal_numeric)
      moreover have "\<And>x. x \<in> set (take 2 ?s) \<Longrightarrow> numeric_unit x"
        using True by (rule prefix_numeric)
      moreover have "set ?s = set (take 2 ?s) \<union> set (drop 2 ?s)"
        by (metis append_take_drop_id set_append)
      ultimately show ?thesis using c by blast
    next
      case False
      then have "signed_decimal ?s \<noteq> NaN"
        using assms(1) ne by (auto simp: Number_str_def Let_def split: if_splits)
      then show ?thesis using c by (rule signed_decimal_numeric)
    qed
  qed
  ultimately show ?thesis by blast
qed

lemma toNumber_not_numeric:
  assumes "c \<in> set (replace_first 0x2C 0x2E (trim s))" and "\<not> numeric_unit c"
  shows "toNumber (JStr s) = None"
proof -
  have "Number_str (replace_first 0x2C 0x2E (trim s)) = NaN"
    using Number_str_numeric [OF _ assms(1)] assms(2) by blast
  then show ?thesis by (simp add: toNumber_def isNaN_def Let_def)
qed

section \<open>The matcher picks the one top-ranked archetype\<close>

lemma priority_inj: "priority a = priority b \<Longrightarrow> a = b"
  by (cases a; cases b) simp_all

lemma preferred_irrefl: "\<not> preferred toks bag a a"
  by (simp add: preferred_def)

lemma preferred_trans:
  "preferred toks bag a b \<Longrightarrow> preferred toks bag b c \<Longrightarrow> preferred toks bag a c"
  unfolding preferred_def by (elim disjE conjE) simp_all

lemma preferred_between:
  "preferred toks bag a c \<Longrightarrow> preferred toks bag a b \<or> preferred toks bag b c"
  unfolding preferred_def by (elim disjE conjE) (auto simp: not_less)

lemma preferred_total:
  "\<not> preferred toks bag a b \<Longrightarrow> \<not> preferred toks bag b a \<Longrightarrow> qtype a = qtype b"
proof -
  assume "\<not> preferred toks bag a b" "\<not> preferred toks bag b a"
  then have "priority (qtype a) = priority (qtype b)"
    unfolding preferred_def by (auto simp: not_less)
  then show ?thesis by (rule priority_inj)
qed

lemma best_in: "best toks bag cur qs \<in> set (cur # qs)"
  by (induction qs arbitrary: cur) auto

lemma best_top: "q \<in> set (cur # qs) \<Longrightarrow> \<not> preferred toks bag q (best toks bag cur qs)"
proof (induction qs arbitrary: cur q)
  case Nil
  then show ?case by (simp add: preferred_irrefl)
next
  case (Cons x xs)
  let ?cur = "if preferred toks bag x cur then x else cur"
  let ?m = "best toks bag ?cur xs"
  have m: "best toks bag cur (x # xs) = ?m" by simp
  have ih: "\<And>z. z \<in> set (?cur # xs) \<Longrightarrow> \<not> preferred toks bag z ?m"
    by (rule Cons.IH)
  have c: "\<not> preferred toks bag ?cur ?m" by (rule ih) simp
  from Cons.prems consider "q = cur" | "q = x" | "q \<in> set xs" by auto
  then have "\<not> preferred toks bag q ?m"
  proof cases
    case 1
    show ?thesis
    proof (cases "preferred toks bag x cur")
      case True
      show ?thesis
      proof
        assume "preferred toks bag q ?m"
        with 1 True have "preferred toks bag x ?m" using preferred_trans by blast
        with c True show False by simp
      qed
    next
      case False
      with c 1 show ?thesis by simp
    qed
  next
    case 2
    show ?thesis
    proof (cases "preferred toks bag x cur")
      case True
      with c 2 show ?thesis by simp
    next
      case False
      show ?thesis
      proof
        assume "preferred toks bag q ?m"
        with 2 have "preferred toks bag x cur \<or> preferred toks bag cur ?m"
          using preferred_between by blast
        with False c show False by simp
      qed
    qed
  next
    case 3
    then show ?thesis using ih by simp
  qed
  with m show ?case by simp
qed

lemma top_unique:
  assumes "distinct (map qtype cat)"
    and "a \<in> set cat" and "\<forall>q \<in> set cat. \<not> preferred toks bag q a"
    and "b \<in> set cat" and "\<forall>q \<in> set cat. \<not> preferred toks bag q b"
  shows "a = b"
proof -
  from assms have "\<not> preferred toks bag a b" "\<not> preferred toks bag b a" by blast+
  then have "qtype a = qtype b" by (rule preferred_total)
  moreover from assms(1) have "inj_on qtype (set cat)" by (simp add: distinct_map)
  ultimately show ?thesis using assms(2,4) by (auto dest: inj_onD)
qed

lemma match_intent_Some:
  assumes "cat \<noteq> []"
  shows "\<exists>r. match_intent cat nt bag = Some r \<and> primaryQuestion r \<in> set cat \<and>
             (\<forall>q \<in> set cat. \<not> preferred (tokens nt) bag q (primaryQuestion r)) \<and>
             primaryScore r = score (tokens nt) (primaryQuestion r)"
proof -
  from assms obtain q qs where cat: "cat = q # qs" by (cases cat) auto
  let ?p = "best (tokens nt) bag q qs"
  have "?p \<in> set cat" unfolding cat by (rule best_in)
  moreover have "\<forall>x \<in> set cat. \<not> preferred (tokens nt) bag x ?p"
    unfolding cat using best_top by blast
  ultimately show ?thesis
    by (simp add: match_intent_def cat Let_def)
qed

lemma score_bounds: "0 \<le> score toks q \<and> score toks q \<le> 1"
proof (cases "triggers q = []")
  case True
  then show ?thesis by (simp add: score_def)
next
  case False
  have "length (filter (trigger_present toks) (triggers q)) \<le> length (triggers q)"
    by (rule length_filter_le)
  then have "(of_nat (length (filter (trigger_present toks) (triggers q))) :: rat)
       \<le> of_nat (length (triggers q))"
    by (simp only: of_nat_le_iff)
  moreover have "(0::rat) < of_nat (length (triggers q))" using False by simp
  ultimately show ?thesis
    using False by (simp add: score_def divide_le_eq)
qed

lemma score_fraction:
  "score toks q * of_nat (length (triggers q)) =
     of_nat (length (filter (trigger_present toks) (triggers q)))"
  by (cases "triggers q = []") (simp_all add: score_def)

lemma not_preferred_score: "\<not> preferred toks bag q p \<Longrightarrow> score toks q \<le> score toks p"
  unfolding preferred_def by (simp add: not_less)

lemma priority_order:
  "sorted_wrt (\<lambda>a b. priority a < priority b)
     [MAINTENANCE_HISTORY, FAULT_ANALYSIS, MATERIAL_USAGE, COST_ANALYSIS, VEHICLE_BASED,
      CUSTOMER_BASED, SERVICE_BASED, TIME_SERIES, SEASONAL, TOP_ENTITIES, DISTRIBUTION,
      COMPARISON]"
  by simp

section \<open>Blank input, and the least and greatest year\<close>

lemmas matcher_eval = match_intent_def CATALOGUE_def archetype_def phrase_def ascii_def
  score_def trigger_present_def unsatisfied_def preferred_def no_entities_def Let_def

lemma lower_unit_ws: "is_ws c \<Longrightarrow> lower_unit c = c"
  by (auto simp: is_ws_def lower_unit_def)

lemma fold_unit_ws: "is_ws c \<Longrightarrow> \<not> is_alnum (fold_unit c)"
proof -
  assume w: "is_ws c"
  then have "fold_unit c = c"
    unfolding fold_unit_def lower_unit_ws [OF w] Let_def by (auto simp: is_ws_def)
  with w show ?thesis using is_ws_alnum by auto
qed

lemma tokens_blank:
  assumes "\<forall>c \<in> set raw. is_ws c"
  shows "tokens (normalize stop raw) = []"
proof -
  have "\<forall>c \<in> set (map fold_unit raw). \<not> is_alnum c"
    using assms fold_unit_ws by auto
  then have "alnum_runs (map fold_unit raw) = []"
    by (simp only: alnum_runs_Nil)
  then show ?thesis by (simp add: normalize_def)
qed

lemma least_fold: "least m xs = fold min xs m"
  by (induction xs arbitrary: m) (simp_all add: min.commute)

lemma greatest_fold: "greatest m xs = fold max xs m"
  by (induction xs arbitrary: m) (simp_all add: max.commute)

lemma least_Min: "least y ys = Min (set (y # ys))"
  by (simp only: least_fold Min.set_eq_fold)

lemma greatest_Max: "greatest y ys = Max (set (y # ys))"
  by (simp only: greatest_fold Max.set_eq_fold)

lemma Min_Max_differ:
  assumes "finite S" and "a \<in> S" and "b \<in> S" and "a \<noteq> b"
  shows "Min S \<noteq> Max (S :: int set)"
proof
  assume e: "Min S = Max S"
  have "Min S \<le> a" "a \<le> Max S" "Min S \<le> b" "b \<le> Max S"
    using assms by simp_all
  with e have "a = b" by linarith
  with assms(4) show False by simp
qed

section \<open>Claims\<close>

text \<open>
  C8. For every input, \<open>normalizeFull\<close> returns a string made only of the characters
  \<open>a-z\<close>, \<open>0-9\<close> and the space, with no space at either end and no two spaces in a row;
  \<^verbatim>\<open>null\<close>, \<^verbatim>\<open>undefined\<close> and the empty string give the empty string. The function has no
  failing branch: it returns a string for every value.
\<close>

theorem normalizeFull_shape:
  "(\<forall>c \<in> set (normalizeFull v). is_alnum c \<or> c = 0x20) \<and>
   (\<forall>i. Suc i < length (normalizeFull v) \<longrightarrow>
        \<not> (normalizeFull v ! i = 0x20 \<and> normalizeFull v ! Suc i = 0x20)) \<and>
   (normalizeFull v \<noteq> [] \<longrightarrow> hd (normalizeFull v) \<noteq> 0x20 \<and> last (normalizeFull v) \<noteq> 0x20) \<and>
   normalizeFull JNull = [] \<and> normalizeFull JUndefined = [] \<and> normalizeFull (JStr []) = []"
proof -
  have "normal_form (normalizeFull v)" by (rule normal_form_normalizeFull)
  then show ?thesis
    by (simp add: normal_form_def successively_conv_nth normalizeFull_def)
qed

theorem normalizeFull_shape_witness:
  "normalizeFull (JStr ([0x15E, 0x65] @ ascii '' -2 '')) = ascii ''se 2'' \<and>
   list_all (\<lambda>c. is_alnum c \<or> c = 0x20) (ascii ''se 2'') \<and>
   Suc 1 < length (ascii ''se 2'') \<and>
   \<not> (ascii ''se 2'' ! 1 = 0x20 \<and> ascii ''se 2'' ! Suc 1 = 0x20) \<and>
   ascii ''se 2'' \<noteq> [] \<and> hd (ascii ''se 2'') \<noteq> 0x20 \<and> last (ascii ''se 2'') \<noteq> 0x20"
proof -
  have e: "normalizeFull (JStr ([0x15E, 0x65] @ ascii '' -2 '')) = ascii ''se 2''"
    by (simp add: normalize_eval)
  have n: "Suc 1 < length (ascii ''se 2'') \<and> ascii ''se 2'' \<noteq> []"
    by (simp add: ascii_def)
  show ?thesis
    using normalizeFull_shape [of "JStr ([0x15E, 0x65] @ ascii '' -2 '')"] n
    unfolding e list_all_iff by blast
qed

text \<open>
  C2. Normalization is idempotent: normalizing the normalized form of any input returns
  that normalized form unchanged.
\<close>

theorem normalizeFull_idempotent:
  "normalizeFull (JStr (normalizeFull x)) = normalizeFull x"
  by (rule normalizeFull_fixed [OF normal_form_normalizeFull])

text \<open>
  C10. \<open>getVerb\<close> returns a verb for every operation type, and its keyword precedence is
  fixed. With \<open>n\<close> the normalized form of the operation type: when \<open>n\<close> contains both
  \<open>onarim\<close> and \<open>kaza\<close> the result is the accident-repaired verb
  (\<^verbatim>\<open>https://promptever.com/verbs/accident-repaired\<close>), whatever else \<open>n\<close> contains;
  otherwise \<open>aksiyon\<close> gives the action verb even with \<open>onarim\<close> present, \<open>onarim\<close> gives
  the repaired verb even with \<open>bakim\<close> present, and \<open>bakim\<close> alone gives the maintained
  verb; and when \<open>n\<close> contains none of \<open>onarim\<close>, \<open>aksiyon\<close>, \<open>bakim\<close> the result is the
  fallback verb \<^verbatim>\<open>http://adlnet.gov/expapi/verbs/completed\<close>. The four verbs of the table
  and the fallback have five different ids, so each case is told apart by its result.
\<close>

theorem getVerb_precedence:
  "(js_includes (normalizeFull v) (ascii ''onarim'') \<and> js_includes (normalizeFull v) (ascii ''kaza'')
      \<longrightarrow> getVerb v = VERB_MAP ONARIM_KAZA \<and>
          verb_id (getVerb v) = ''https://promptever.com/verbs/accident-repaired'' \<and>
          display_en_US (getVerb v) = ''Accident Repaired'') \<and>
   (\<not> (js_includes (normalizeFull v) (ascii ''onarim'') \<and> js_includes (normalizeFull v) (ascii ''kaza'')) \<and>
    js_includes (normalizeFull v) (ascii ''aksiyon'')
      \<longrightarrow> getVerb v = VERB_MAP AKSIYON \<and>
          verb_id (getVerb v) = ''https://promptever.com/verbs/action'' \<and>
          display_en_US (getVerb v) = ''Action'') \<and>
   (\<not> js_includes (normalizeFull v) (ascii ''kaza'') \<and> \<not> js_includes (normalizeFull v) (ascii ''aksiyon'') \<and>
    js_includes (normalizeFull v) (ascii ''onarim'')
      \<longrightarrow> getVerb v = VERB_MAP ONARIM \<and>
          verb_id (getVerb v) = ''https://promptever.com/verbs/repaired'' \<and>
          display_en_US (getVerb v) = ''Repaired'') \<and>
   (\<not> js_includes (normalizeFull v) (ascii ''onarim'') \<and> \<not> js_includes (normalizeFull v) (ascii ''aksiyon'') \<and>
    js_includes (normalizeFull v) (ascii ''bakim'')
      \<longrightarrow> getVerb v = VERB_MAP BAKIM \<and>
          verb_id (getVerb v) = ''https://promptever.com/verbs/maintained'' \<and>
          display_en_US (getVerb v) = ''Maintained'') \<and>
   (\<not> js_includes (normalizeFull v) (ascii ''onarim'') \<and> \<not> js_includes (normalizeFull v) (ascii ''aksiyon'') \<and>
    \<not> js_includes (normalizeFull v) (ascii ''bakim'')
      \<longrightarrow> getVerb v = completed_verb v \<and>
          verb_id (getVerb v) = ''http://adlnet.gov/expapi/verbs/completed'' \<and>
          display_en_US (getVerb v) = ''Completed'') \<and>
   distinct [verb_id (VERB_MAP ONARIM_KAZA), verb_id (VERB_MAP AKSIYON), verb_id (VERB_MAP ONARIM),
             verb_id (VERB_MAP BAKIM), verb_id (completed_verb v)]"
  unfolding getVerb_def normalizeFull_js_or Let_def
  by (simp add: completed_verb_def BASE_URI_def)

theorem getVerb_precedence_witness:
  "js_includes (normalizeFull (JStr (ascii ''KAZA ONARIM - BAKIM, AKSIYON''))) (ascii ''onarim'') \<and>
   js_includes (normalizeFull (JStr (ascii ''KAZA ONARIM - BAKIM, AKSIYON''))) (ascii ''kaza'') \<and>
   js_includes (normalizeFull (JStr (ascii ''KAZA ONARIM - BAKIM, AKSIYON''))) (ascii ''bakim'') \<and>
   js_includes (normalizeFull (JStr (ascii ''KAZA ONARIM - BAKIM, AKSIYON''))) (ascii ''aksiyon'') \<and>
   verb_id (getVerb (JStr (ascii ''KAZA ONARIM - BAKIM, AKSIYON''))) = ''https://promptever.com/verbs/accident-repaired'' \<and>
   verb_id (getVerb (JStr (ascii ''Aksiyon/Onarim''))) = ''https://promptever.com/verbs/action'' \<and>
   verb_id (getVerb (JStr (ascii ''2.EL ONARIM BAKIM''))) = ''https://promptever.com/verbs/repaired'' \<and>
   verb_id (getVerb (JStr (ascii ''EURO6 C-D-E BAKIM''))) = ''https://promptever.com/verbs/maintained'' \<and>
   verb_id (getVerb (JStr (ascii ''KAZA''))) = ''http://adlnet.gov/expapi/verbs/completed''"
proof -
  have n1: "normalizeFull (JStr (ascii ''KAZA ONARIM - BAKIM, AKSIYON'')) = ascii ''kaza onarim bakim aksiyon''"
    by (simp add: normalize_eval)
  have h1: "js_includes (ascii ''kaza onarim bakim aksiyon'') (ascii ''onarim'') = True \<and>
      js_includes (ascii ''kaza onarim bakim aksiyon'') (ascii ''kaza'') = True \<and>
      js_includes (ascii ''kaza onarim bakim aksiyon'') (ascii ''aksiyon'') = True \<and>
      js_includes (ascii ''kaza onarim bakim aksiyon'') (ascii ''bakim'') = True"
    by (simp add: ascii_def)
  have c1: "verb_id (getVerb (JStr (ascii ''KAZA ONARIM - BAKIM, AKSIYON''))) = ''https://promptever.com/verbs/accident-repaired''"
    using getVerb_precedence [of "JStr (ascii ''KAZA ONARIM - BAKIM, AKSIYON'')"] unfolding n1 by (simp add: h1 BASE_URI_def completed_verb_def)
  have n2: "normalizeFull (JStr (ascii ''Aksiyon/Onarim'')) = ascii ''aksiyon onarim''"
    by (simp add: normalize_eval)
  have h2: "js_includes (ascii ''aksiyon onarim'') (ascii ''onarim'') = True \<and>
      js_includes (ascii ''aksiyon onarim'') (ascii ''kaza'') = False \<and>
      js_includes (ascii ''aksiyon onarim'') (ascii ''aksiyon'') = True \<and>
      js_includes (ascii ''aksiyon onarim'') (ascii ''bakim'') = False"
    by (simp add: ascii_def)
  have c2: "verb_id (getVerb (JStr (ascii ''Aksiyon/Onarim''))) = ''https://promptever.com/verbs/action''"
    using getVerb_precedence [of "JStr (ascii ''Aksiyon/Onarim'')"] unfolding n2 by (simp add: h2 BASE_URI_def completed_verb_def)
  have n3: "normalizeFull (JStr (ascii ''2.EL ONARIM BAKIM'')) = ascii ''2 el onarim bakim''"
    by (simp add: normalize_eval)
  have h3: "js_includes (ascii ''2 el onarim bakim'') (ascii ''onarim'') = True \<and>
      js_includes (ascii ''2 el onarim bakim'') (ascii ''kaza'') = False \<and>
      js_includes (ascii ''2 el onarim bakim'') (ascii ''aksiyon'') = False \<and>
      js_includes (ascii ''2 el onarim bakim'') (ascii ''bakim'') = True"
    by (simp add: ascii_def)
  have c3: "verb_id (getVerb (JStr (ascii ''2.EL ONARIM BAKIM''))) = ''https://promptever.com/verbs/repaired''"
    using getVerb_precedence [of "JStr (ascii ''2.EL ONARIM BAKIM'')"] unfolding n3 by (simp add: h3 BASE_URI_def completed_verb_def)
  have n4: "normalizeFull (JStr (ascii ''EURO6 C-D-E BAKIM'')) = ascii ''euro6 c d e bakim''"
    by (simp add: normalize_eval)
  have h4: "js_includes (ascii ''euro6 c d e bakim'') (ascii ''onarim'') = False \<and>
      js_includes (ascii ''euro6 c d e bakim'') (ascii ''kaza'') = False \<and>
      js_includes (ascii ''euro6 c d e bakim'') (ascii ''aksiyon'') = False \<and>
      js_includes (ascii ''euro6 c d e bakim'') (ascii ''bakim'') = True"
    by (simp add: ascii_def)
  have c4: "verb_id (getVerb (JStr (ascii ''EURO6 C-D-E BAKIM''))) = ''https://promptever.com/verbs/maintained''"
    using getVerb_precedence [of "JStr (ascii ''EURO6 C-D-E BAKIM'')"] unfolding n4 by (simp add: h4 BASE_URI_def completed_verb_def)
  have n5: "normalizeFull (JStr (ascii ''KAZA'')) = ascii ''kaza''"
    by (simp add: normalize_eval)
  have h5: "js_includes (ascii ''kaza'') (ascii ''onarim'') = False \<and>
      js_includes (ascii ''kaza'') (ascii ''kaza'') = True \<and>
      js_includes (ascii ''kaza'') (ascii ''aksiyon'') = False \<and>
      js_includes (ascii ''kaza'') (ascii ''bakim'') = False"
    by (simp add: ascii_def)
  have c5: "verb_id (getVerb (JStr (ascii ''KAZA''))) = ''http://adlnet.gov/expapi/verbs/completed''"
    using getVerb_precedence [of "JStr (ascii ''KAZA'')"] unfolding n5 by (simp add: h5 BASE_URI_def completed_verb_def)
  show ?thesis
    unfolding n1 using h1 c1 c2 c3 c4 c5 by (simp only: simp_thms)
qed

text \<open>
  C1, as the specification states it, does not hold of \<open>normalizeFull\<close>: a diacritic other
  than the Turkish ones is not folded to its base letter but separates words (\<open>caf\<close> followed by
  e-acute, \<open>U+00E9\<close>, gives \<open>caf\<close>), and a string with \<open>U+0130\<close> (capital I with
  dot above) does not normalize like the string with \<open>i\<close> in its place: lower-casing
  turns \<open>U+0130\<close> into \<open>i\<close> followed by \<open>U+0307\<close>, which becomes a space.
\<close>

theorem normalizeFull_folding_counterexample:
  "normalizeFull (JStr (ascii ''caf'' @ [0xE9])) = ascii ''caf'' \<and>
   normalizeFull (JStr (0x130 # ascii ''stanbul'')) = ascii ''i stanbul'' \<and>
   normalizeFull (JStr (ascii ''istanbul'')) = ascii ''istanbul'' \<and>
   normalizeFull (JStr (0x130 # ascii ''stanbul'')) \<noteq> normalizeFull (JStr (ascii ''istanbul''))"
  by (simp add: normalize_eval)

text \<open>
  C1, amended. For every input string without \<open>U+0130\<close>, \<open>normalizeFull\<close> lower-cases,
  folds the Turkish letters \<open>U+0131\<close>, s-cedilla, g-breve, u-diaeresis, o-diaeresis and
  c-cedilla (in either case) to \<open>i\<close>, \<open>s\<close>, \<open>g\<close>, \<open>u\<close>, \<open>o\<close>, \<open>c\<close>, treats every
  other character outside \<open>a-z\<close> and \<open>0-9\<close>, other diacritics included, as a separator,
  and returns the maximal alphanumeric runs joined by single spaces, with no space at
  either end.
\<close>

theorem normalizeFull_refines_spec:
  assumes "0x130 \<notin> set s"
  shows "normalizeFull (JStr s) = normalize_spec s"
proof -
  let ?m = "map keep_unit (map fold_unit s)"
  have p: "replace_other (fold_turkish (toLowerCase s)) = ?m"
    using assms by (simp add: toLowerCase_map fold_turkish_lower replace_other_map)
  have sp: "spaced ?m" by (auto simp: spaced_def keep_unit_def)
  have "trim (collapse_ws ?m) = join_words (alnum_runs ?m)"
    by (rule trim_collapse_runs [OF sp])
  also have "\<dots> = normalize_spec s"
    by (simp only: alnum_runs_keep normalize_spec_def)
  finally have e: "trim (collapse_ws ?m) = normalize_spec s" .
  show ?thesis
  proof (cases "s = []")
    case True
    then show ?thesis by (simp add: normalizeFull_def normalize_spec_def)
  next
    case False
    then show ?thesis using p e by (simp add: normalizeFull_def)
  qed
qed

theorem normalizeFull_refines_spec_witness:
  "0x130 \<notin> set ([0x15E, 0x65, 0x68, 0x69, 0x72] @ ascii ''-2  '' @ [0xC7, 0x41, 0x11E, 0x52, 0x49]) \<and>
   normalizeFull (JStr ([0x15E, 0x65, 0x68, 0x69, 0x72] @ ascii ''-2  '' @ [0xC7, 0x41, 0x11E, 0x52, 0x49]))
     = normalize_spec ([0x15E, 0x65, 0x68, 0x69, 0x72] @ ascii ''-2  '' @ [0xC7, 0x41, 0x11E, 0x52, 0x49]) \<and>
   normalizeFull (JStr ([0x15E, 0x65, 0x68, 0x69, 0x72] @ ascii ''-2  '' @ [0xC7, 0x41, 0x11E, 0x52, 0x49]))
     = ascii ''sehir 2 cagri''"
proof -
  have h: "0x130 \<notin> set ([0x15E, 0x65, 0x68, 0x69, 0x72] @ ascii ''-2  '' @ [0xC7, 0x41, 0x11E, 0x52, 0x49])"
    by (simp add: ascii_def)
  have e: "normalizeFull (JStr ([0x15E, 0x65, 0x68, 0x69, 0x72] @ ascii ''-2  '' @ [0xC7, 0x41, 0x11E, 0x52, 0x49]))
     = ascii ''sehir 2 cagri''"
    by (simp add: normalize_eval)
  show ?thesis
    using normalizeFull_refines_spec [OF h] h e by simp
qed

text \<open>
  C9. \<open>toNumber\<close> returns a number or \<^verbatim>\<open>undefined\<close> for every value and never \<^verbatim>\<open>NaN\<close>.
  \<^verbatim>\<open>null\<close>, \<^verbatim>\<open>undefined\<close>, the empty and the blank string give \<^verbatim>\<open>undefined\<close>, and so does every
  string with a character, other than a comma, that cannot occur in a number. Otherwise the
  result is what \<^verbatim>\<open>Number\<close> reads from the trimmed string with its first comma, and only that
  one, replaced by a dot: \<^verbatim>\<open>12,5\<close> gives twelve and a half, and a string with two or more
  commas gives \<^verbatim>\<open>undefined\<close>.
\<close>

theorem toNumber_total:
  "toNumber v \<noteq> Some NaN \<and>
   toNumber JNull = None \<and> toNumber JUndefined = None \<and>
   (trim s = [] \<longrightarrow> toNumber (JStr s) = None) \<and>
   ((\<exists>c \<in> set s. c \<noteq> 0x2C \<and> \<not> numeric_unit c) \<longrightarrow> toNumber (JStr s) = None) \<and>
   toNumber (JStr (ascii ''12,5'')) = Some (Finite (25 / 2)) \<and>
   (trim s \<noteq> [] \<longrightarrow>
      toNumber (JStr s) =
        (let n = Number_str (replace_first 0x2C 0x2E (trim s)) in if n = NaN then None else Some n)) \<and>
   (2 \<le> count_list s 0x2C \<longrightarrow> toNumber (JStr s) = None)"
proof -
  have a: "toNumber v \<noteq> Some NaN"
    by (simp add: toNumber_def isNaN_def Let_def)
  have b: "toNumber JNull = None \<and> toNumber JUndefined = None"
    by (simp add: toNumber_def)
  have c: "trim s = [] \<Longrightarrow> toNumber (JStr s) = None"
    by (simp add: toNumber_def)
  have d: "toNumber (JStr s) = None" if "\<exists>c \<in> set s. c \<noteq> 0x2C \<and> \<not> numeric_unit c"
  proof -
    from that obtain c where c: "c \<in> set s" "c \<noteq> 0x2C" "\<not> numeric_unit c" by blast
    then have "\<not> is_ws c" by (auto simp: numeric_unit_def)
    with c(1) have "c \<in> set (trim s)" using set_trim_ws by blast
    then have "c \<in> set (replace_first 0x2C 0x2E (trim s))"
      using c(2) by (rule replace_first_keeps)
    then show ?thesis using c(3) by (rule toNumber_not_numeric)
  qed
  have e: "toNumber (JStr (ascii ''12,5'')) = Some (Finite (25 / 2))"
    by (simp add: number_eval)
  have f: "trim s \<noteq> [] \<Longrightarrow> toNumber (JStr s) =
        (let n = Number_str (replace_first 0x2C 0x2E (trim s)) in if n = NaN then None else Some n)"
    by (simp add: toNumber_def isNaN_def Let_def)
  have g: "toNumber (JStr s) = None" if "2 \<le> count_list s 0x2C"
  proof -
    have "\<not> is_ws 0x2C" by (simp add: is_ws_def)
    then have "2 \<le> count_list (trim s) 0x2C" using that by (simp add: count_list_trim)
    then have "0x2C \<in> set (replace_first 0x2C 0x2E (trim s))"
      by (rule replace_first_second)
    moreover have "\<not> numeric_unit 0x2C" by (simp add: numeric_unit_def is_ws_def ascii_def)
    ultimately show ?thesis by (rule toNumber_not_numeric)
  qed
  from a b c d e f g show ?thesis by blast
qed

theorem toNumber_total_witness:
  "2 \<le> count_list (ascii ''1,2,3'') 0x2C \<and> toNumber (JStr (ascii ''1,2,3'')) = None \<and>
   trim (ascii ''  '') = [] \<and> toNumber (JStr (ascii ''  '')) = None \<and>
   0x54 \<in> set (ascii ''12 TL'') \<and> \<not> numeric_unit 0x54 \<and> toNumber (JStr (ascii ''12 TL'')) = None \<and>
   trim (ascii '' 12,5'') \<noteq> [] \<and>
   Number_str (replace_first 0x2C 0x2E (trim (ascii '' 12,5''))) = Finite (25 / 2) \<and>
   toNumber (JStr (ascii '' 12,5'')) = Some (Finite (25 / 2))"
proof -
  have h1: "2 \<le> count_list (ascii ''1,2,3'') 0x2C"
    by (simp add: ascii_def)
  have h2: "trim (ascii ''  '') = []"
    by (simp add: ascii_def trim_def is_ws_def)
  have h3: "0x54 \<in> set (ascii ''12 TL'') \<and> 0x54 \<noteq> (0x2C::nat) \<and> \<not> numeric_unit 0x54"
    by (simp add: ascii_def numeric_unit_def is_ws_def)
  have h4: "trim (ascii '' 12,5'') \<noteq> []"
    by (simp add: ascii_def trim_def is_ws_def)
  have h5: "Number_str (replace_first 0x2C 0x2E (trim (ascii '' 12,5''))) = Finite (25 / 2)"
    by (simp add: number_eval)
  have c1: "toNumber (JStr (ascii ''1,2,3'')) = None"
    using toNumber_total [of JNull "ascii ''1,2,3''"] h1 by blast
  have c2: "toNumber (JStr (ascii ''  '')) = None"
    using toNumber_total [of JNull "ascii ''  ''"] h2 by blast
  have c3: "toNumber (JStr (ascii ''12 TL'')) = None"
    using toNumber_total [of JNull "ascii ''12 TL''"] h3 by blast
  have c4: "toNumber (JStr (ascii '' 12,5'')) = Some (Finite (25 / 2))"
    using toNumber_total [of JNull "ascii '' 12,5''"] h4 unfolding h5 Let_def by simp
  from h1 h2 h3 h4 h5 c1 c2 c3 c4 show ?thesis by blast
qed

text \<open>
  C6 (against the matcher modelled from the specification). The intent matcher is total
  over a catalogue that has entries, as the fixed catalogue of twelve archetypes has: for
  every normalized input and every entity bag it returns a match result. The primary
  question is an entry of the catalogue that no other entry is preferred to (the
  top-ranked candidate), no entry scores higher, the primary score is its score, that is
  the fraction of its triggers that are present, and lies between 0 and 1, and when every
  archetype scores zero the primary score is 0: the matcher returns its candidate and
  leaves the judgement of the score to the caller.
\<close>

theorem matcher_total:
  assumes "cat \<noteq> []"
  shows "\<exists>r. match_intent cat nt bag = Some r \<and>
             primaryQuestion r \<in> set cat \<and>
             (\<forall>q \<in> set cat. \<not> preferred (tokens nt) bag q (primaryQuestion r)) \<and>
             (\<forall>q \<in> set cat. score (tokens nt) q \<le> primaryScore r) \<and>
             primaryScore r = score (tokens nt) (primaryQuestion r) \<and>
             primaryScore r * of_nat (length (triggers (primaryQuestion r))) =
               of_nat (length (filter (trigger_present (tokens nt)) (triggers (primaryQuestion r)))) \<and>
             0 \<le> primaryScore r \<and> primaryScore r \<le> 1 \<and>
             ((\<forall>q \<in> set cat. score (tokens nt) q = 0) \<longrightarrow> primaryScore r = 0)"
proof -
  from match_intent_Some [OF assms] obtain r where
    r: "match_intent cat nt bag = Some r" "primaryQuestion r \<in> set cat"
       "\<forall>q \<in> set cat. \<not> preferred (tokens nt) bag q (primaryQuestion r)"
       "primaryScore r = score (tokens nt) (primaryQuestion r)"
    by blast
  have b: "0 \<le> primaryScore r \<and> primaryScore r \<le> 1"
    unfolding r(4) by (rule score_bounds)
  have z: "(\<forall>q \<in> set cat. score (tokens nt) q = 0) \<longrightarrow> primaryScore r = 0"
    using r(2,4) by simp
  have h: "\<forall>q \<in> set cat. score (tokens nt) q \<le> primaryScore r"
    unfolding r(4) using r(3) not_preferred_score by blast
  have f: "primaryScore r * of_nat (length (triggers (primaryQuestion r))) =
      of_nat (length (filter (trigger_present (tokens nt)) (triggers (primaryQuestion r))))"
    unfolding r(4) by (rule score_fraction)
  from r b z h f show ?thesis by blast
qed

theorem matcher_total_witness:
  "CATALOGUE \<noteq> [] \<and> length CATALOGUE = 12 \<and>
   list_all (\<lambda>q. score [ascii ''merhaba''] q = 0) CATALOGUE \<and>
   (\<exists>r. match_intent CATALOGUE \<lparr>folded = ascii ''merhaba'', tokens = [ascii ''merhaba'']\<rparr> no_entities
          = Some r \<and>
        qtype (primaryQuestion r) = COST_ANALYSIS \<and> primaryScore r = 0) \<and>
   map_option (\<lambda>r. (qtype (primaryQuestion r), primaryScore r))
     (match_intent CATALOGUE
        \<lparr>folded = ascii ''fren maliyet'', tokens = [ascii ''fren'', ascii ''maliyet'']\<rparr> no_entities)
     = Some (COST_ANALYSIS, 1 / 6)"
proof -
  let ?nt = "\<lparr>folded = ascii ''merhaba'', tokens = [ascii ''merhaba'']\<rparr>"
  have ne: "CATALOGUE \<noteq> []" and len: "length CATALOGUE = 12"
    by (simp_all add: CATALOGUE_def)
  have z: "list_all (\<lambda>q. score [ascii ''merhaba''] q = 0) CATALOGUE"
    by (simp add: matcher_eval)
  have e: "map_option (\<lambda>r. qtype (primaryQuestion r)) (match_intent CATALOGUE ?nt no_entities)
      = Some COST_ANALYSIS"
    by (simp add: matcher_eval)
  from matcher_total [OF ne, of ?nt no_entities] obtain r where
    r: "match_intent CATALOGUE ?nt no_entities = Some r"
       "(\<forall>q \<in> set CATALOGUE. score (tokens ?nt) q = 0) \<longrightarrow> primaryScore r = 0"
    by blast
  from z have "\<forall>q \<in> set CATALOGUE. score (tokens ?nt) q = 0"
    by (simp add: list_all_iff)
  with r(2) have "primaryScore r = 0" by blast
  moreover from e r(1) have "qtype (primaryQuestion r) = COST_ANALYSIS" by simp
  moreover have "map_option (\<lambda>r. (qtype (primaryQuestion r), primaryScore r))
     (match_intent CATALOGUE
        \<lparr>folded = ascii ''fren maliyet'', tokens = [ascii ''fren'', ascii ''maliyet'']\<rparr> no_entities)
     = Some (COST_ANALYSIS, 1 / 6)"
    by (simp add: matcher_eval)
  ultimately show ?thesis using ne len z r(1) by blast
qed

text \<open>
  C4 (against the matcher modelled from the specification). Over a catalogue with one
  entry per archetype the winner is decided by score, then by the feasibility check, then
  by the fixed priority ordering: every other entry has a lower score, or the same score
  and more unsatisfied required dimensions, or the same score, as many unsatisfied
  required dimensions and a later place in the priority ordering, which is
  MAINTENANCE_HISTORY, FAULT_ANALYSIS, MATERIAL_USAGE, COST_ANALYSIS, VEHICLE_BASED,
  CUSTOMER_BASED, SERVICE_BASED, TIME_SERIES, SEASONAL, TOP_ENTITIES, DISTRIBUTION,
  COMPARISON. The winner and its score are the same for every iteration order of the
  catalogue.
\<close>

theorem tie_break_deterministic:
  assumes "distinct (map qtype cat)" and "cat \<noteq> []"
  shows "sorted_wrt (\<lambda>a b. priority a < priority b)
           [MAINTENANCE_HISTORY, FAULT_ANALYSIS, MATERIAL_USAGE, COST_ANALYSIS, VEHICLE_BASED,
            CUSTOMER_BASED, SERVICE_BASED, TIME_SERIES, SEASONAL, TOP_ENTITIES, DISTRIBUTION,
            COMPARISON] \<and>
         (\<exists>r. match_intent cat nt bag = Some r \<and>
           primaryQuestion r \<in> set cat \<and>
           (\<forall>q \<in> set cat. q \<noteq> primaryQuestion r \<longrightarrow>
              score (tokens nt) q < score (tokens nt) (primaryQuestion r) \<or>
              (score (tokens nt) q = score (tokens nt) (primaryQuestion r) \<and>
               (unsatisfied bag (primaryQuestion r) < unsatisfied bag q \<or>
                (unsatisfied bag (primaryQuestion r) = unsatisfied bag q \<and>
                 priority (qtype (primaryQuestion r)) < priority (qtype q))))) \<and>
           (\<forall>cat'. set cat' = set cat \<longrightarrow>
              (\<exists>r'. match_intent cat' nt bag = Some r' \<and>
                    primaryQuestion r' = primaryQuestion r \<and> primaryScore r' = primaryScore r)))"
proof -
  let ?toks = "tokens nt"
  from match_intent_Some [OF assms(2)] obtain r where
    r: "match_intent cat nt bag = Some r" "primaryQuestion r \<in> set cat"
       "\<forall>q \<in> set cat. \<not> preferred ?toks bag q (primaryQuestion r)"
       "primaryScore r = score ?toks (primaryQuestion r)"
    by blast
  let ?w = "primaryQuestion r"
  have wins: "preferred ?toks bag ?w q" if "q \<in> set cat" "q \<noteq> ?w" for q
  proof (rule ccontr)
    assume "\<not> preferred ?toks bag ?w q"
    moreover have "\<not> preferred ?toks bag q ?w" using r(3) that(1) by blast
    ultimately have "qtype ?w = qtype q" by (rule preferred_total)
    moreover from assms(1) have "inj_on qtype (set cat)" by (simp add: distinct_map)
    ultimately have "?w = q" using r(2) that(1) by (auto dest: inj_onD)
    with that(2) show False by simp
  qed
  have a: "\<forall>q \<in> set cat. q \<noteq> ?w \<longrightarrow>
              score ?toks q < score ?toks ?w \<or>
              (score ?toks q = score ?toks ?w \<and>
               (unsatisfied bag ?w < unsatisfied bag q \<or>
                (unsatisfied bag ?w = unsatisfied bag q \<and>
                 priority (qtype ?w) < priority (qtype q))))"
  proof (intro ballI impI)
    fix q assume "q \<in> set cat" "q \<noteq> ?w"
    then have "preferred ?toks bag ?w q" by (rule wins)
    then show "score ?toks q < score ?toks ?w \<or>
              (score ?toks q = score ?toks ?w \<and>
               (unsatisfied bag ?w < unsatisfied bag q \<or>
                (unsatisfied bag ?w = unsatisfied bag q \<and>
                 priority (qtype ?w) < priority (qtype q))))"
      unfolding preferred_def by auto
  qed
  have b: "\<exists>r'. match_intent cat' nt bag = Some r' \<and>
                primaryQuestion r' = ?w \<and> primaryScore r' = primaryScore r"
    if "set cat' = set cat" for cat'
  proof -
    from that assms(2) have "cat' \<noteq> []" by auto
    from match_intent_Some [OF this] obtain r' where
      r': "match_intent cat' nt bag = Some r'" "primaryQuestion r' \<in> set cat'"
          "\<forall>q \<in> set cat'. \<not> preferred ?toks bag q (primaryQuestion r')"
          "primaryScore r' = score ?toks (primaryQuestion r')"
      by blast
    have "primaryQuestion r' = ?w"
      using top_unique [OF assms(1), of "primaryQuestion r'" ?toks bag ?w] r' r that by simp
    with r' r(4) show ?thesis by simp
  qed
  from r(1,2) a b have "\<exists>r. match_intent cat nt bag = Some r \<and>
           primaryQuestion r \<in> set cat \<and>
           (\<forall>q \<in> set cat. q \<noteq> primaryQuestion r \<longrightarrow>
              score (tokens nt) q < score (tokens nt) (primaryQuestion r) \<or>
              (score (tokens nt) q = score (tokens nt) (primaryQuestion r) \<and>
               (unsatisfied bag (primaryQuestion r) < unsatisfied bag q \<or>
                (unsatisfied bag (primaryQuestion r) = unsatisfied bag q \<and>
                 priority (qtype (primaryQuestion r)) < priority (qtype q))))) \<and>
           (\<forall>cat'. set cat' = set cat \<longrightarrow>
              (\<exists>r'. match_intent cat' nt bag = Some r' \<and>
                    primaryQuestion r' = primaryQuestion r \<and> primaryScore r' = primaryScore r))"
    by blast
  with priority_order show ?thesis by (rule conjI)
qed

theorem tie_break_deterministic_witness:
  "distinct (map qtype CATALOGUE) \<and> CATALOGUE \<noteq> [] \<and>
   score [ascii ''servis'', ascii ''musteri''] (CATALOGUE ! 5) = 1 / 5 \<and>
   score [ascii ''servis'', ascii ''musteri''] (CATALOGUE ! 6) = 1 / 5 \<and>
   map_option (\<lambda>r. qtype (primaryQuestion r))
     (match_intent CATALOGUE
        \<lparr>folded = ascii ''servis musteri'', tokens = [ascii ''servis'', ascii ''musteri'']\<rparr>
        (no_entities\<lparr>serviceIds := [ascii ''r540'']\<rparr>)) = Some SERVICE_BASED \<and>
   map_option (\<lambda>r. qtype (primaryQuestion r))
     (match_intent (rev CATALOGUE)
        \<lparr>folded = ascii ''servis musteri'', tokens = [ascii ''servis'', ascii ''musteri'']\<rparr>
        (no_entities\<lparr>serviceIds := [ascii ''r540'']\<rparr>)) = Some SERVICE_BASED \<and>
   map_option (\<lambda>r. qtype (primaryQuestion r))
     (match_intent CATALOGUE
        \<lparr>folded = ascii ''servis musteri'', tokens = [ascii ''servis'', ascii ''musteri'']\<rparr>
        no_entities) = Some CUSTOMER_BASED"
proof -
  let ?nt = "\<lparr>folded = ascii ''servis musteri'', tokens = [ascii ''servis'', ascii ''musteri'']\<rparr>"
  let ?bag = "no_entities\<lparr>serviceIds := [ascii ''r540'']\<rparr>"
  have d: "distinct (map qtype CATALOGUE)" and ne: "CATALOGUE \<noteq> []"
    by (simp_all add: CATALOGUE_def archetype_def)
  have s: "score [ascii ''servis'', ascii ''musteri''] (CATALOGUE ! 5) = 1 / 5 \<and>
           score [ascii ''servis'', ascii ''musteri''] (CATALOGUE ! 6) = 1 / 5"
    by (simp add: matcher_eval)
  have e1: "map_option (\<lambda>r. qtype (primaryQuestion r)) (match_intent CATALOGUE ?nt ?bag)
      = Some SERVICE_BASED"
    by (simp add: matcher_eval)
  have e2: "map_option (\<lambda>r. qtype (primaryQuestion r)) (match_intent CATALOGUE ?nt no_entities)
      = Some CUSTOMER_BASED"
    by (simp add: matcher_eval)
  from tie_break_deterministic [OF d ne, of ?nt ?bag] obtain r where
    r: "match_intent CATALOGUE ?nt ?bag = Some r"
       "\<forall>cat'. set cat' = set CATALOGUE \<longrightarrow>
          (\<exists>r'. match_intent cat' ?nt ?bag = Some r' \<and>
                primaryQuestion r' = primaryQuestion r \<and> primaryScore r' = primaryScore r)"
    by blast
  have "set (rev CATALOGUE) = set CATALOGUE" by simp
  with r(2) obtain r' where
    r': "match_intent (rev CATALOGUE) ?nt ?bag = Some r'" "primaryQuestion r' = primaryQuestion r"
    by blast
  from e1 r(1) have "qtype (primaryQuestion r) = SERVICE_BASED" by simp
  with r' have "map_option (\<lambda>r. qtype (primaryQuestion r)) (match_intent (rev CATALOGUE) ?nt ?bag)
      = Some SERVICE_BASED"
    by simp
  with d ne s e1 e2 show ?thesis by blast
qed

text \<open>
  C5 (against the pipeline modelled from the specification). For every input that is
  empty or consists of white space only, and for every configuration of the router, the
  normalizer yields no token and \<open>analyze\<close> returns the \<open>EmptyQuestion\<close> outcome: it
  returns no plan and no error. Only such inputs end the pipeline early: for a text with
  tokens and a match, the outcome is the one of the synthesizer.
\<close>

theorem empty_question_outcome:
  assumes "\<forall>c \<in> set raw. is_ws c"
  shows "tokens (normalize (stop_words (r :: router)) raw) = [] \<and>
         analyze r raw = Inr EmptyQuestion \<and>
         (\<forall>p. analyze r raw \<noteq> Inr (Plan p)) \<and> (\<forall>e. analyze r raw \<noteq> Inl e) \<and>
         (\<forall>txt m.
            tokens (normalize (stop_words r) txt) \<noteq> [] \<and>
            match_intent (catalogue r) (normalize (stop_words r) txt)
              (extractor r txt (normalize (stop_words r) txt)) = Some m
            \<longrightarrow> analyze r txt =
                  Inr (synthesize r
                        (refine (refine_rules r) m (extractor r txt (normalize (stop_words r) txt)))
                        (extractor r txt (normalize (stop_words r) txt))))"
proof -
  have t: "tokens (normalize (stop_words r) raw) = []"
    by (rule tokens_blank [OF assms])
  then have e: "analyze r raw = Inr EmptyQuestion"
    by (simp add: analyze_def Let_def)
  have rest: "\<And>txt m. tokens (normalize (stop_words r) txt) \<noteq> [] \<Longrightarrow>
      match_intent (catalogue r) (normalize (stop_words r) txt)
        (extractor r txt (normalize (stop_words r) txt)) = Some m \<Longrightarrow>
      analyze r txt =
        Inr (synthesize r
              (refine (refine_rules r) m (extractor r txt (normalize (stop_words r) txt)))
              (extractor r txt (normalize (stop_words r) txt)))"
    by (simp add: analyze_def Let_def)
  from t e rest show ?thesis by simp
qed

theorem empty_question_outcome_witness:
  "list_all is_ws [0x20, 0x09, 0xA0, 0x0A] \<and>
   tokens (normalize (stop_words example_router) [0x20, 0x09, 0xA0, 0x0A]) = [] \<and>
   analyze example_router [0x20, 0x09, 0xA0, 0x0A] = Inr EmptyQuestion \<and>
   analyze example_router [] = Inr EmptyQuestion \<and>
   tokens (normalize (stop_words example_router) (ascii ''Bu  MALIYET?'')) = [ascii ''maliyet''] \<and>
   (\<exists>p. analyze example_router (ascii ''Bu  MALIYET?'') = Inr (Plan p))"
proof -
  let ?r = example_router
  let ?txt = "ascii ''Bu  MALIYET?''"
  let ?nt = "normalize (stop_words ?r) ?txt"
  have w: "list_all is_ws [0x20, 0x09, 0xA0, 0x0A]"
    by (simp add: is_ws_def)
  then have h: "\<forall>c \<in> set [0x20, 0x09, 0xA0, 0x0A]. is_ws c"
    by (simp only: list_all_iff)
  have h0: "\<forall>c \<in> set ([] :: nat list). is_ws c" by simp
  have a: "tokens (normalize (stop_words ?r) [0x20, 0x09, 0xA0, 0x0A]) = []"
    "analyze ?r [0x20, 0x09, 0xA0, 0x0A] = Inr EmptyQuestion"
    using empty_question_outcome [OF h, of ?r] by blast+
  have b: "analyze ?r [] = Inr EmptyQuestion"
    using empty_question_outcome [OF h0, of ?r] by blast
  have t: "tokens ?nt = [ascii ''maliyet'']"
    by (simp add: normalize_def example_router_def fold_unit_def lower_unit_def is_alnum_def
          ascii_def Let_def)
  then have tn: "tokens ?nt \<noteq> []" by (simp add: ascii_def)
  have "catalogue ?r \<noteq> []"
    by (simp add: example_router_def CATALOGUE_def)
  from match_intent_Some [OF this, of ?nt "extractor ?r ?txt ?nt"] obtain m where
    m: "match_intent (catalogue ?r) ?nt (extractor ?r ?txt ?nt) = Some m" by blast
  from empty_question_outcome [OF h, of ?r] tn m
  have "analyze ?r ?txt =
      Inr (synthesize ?r (refine (refine_rules ?r) m (extractor ?r ?txt ?nt)) (extractor ?r ?txt ?nt))"
    by blast
  then have c: "\<exists>p. analyze ?r ?txt = Inr (Plan p)"
    by (simp add: example_router_def)
  from w a b t c show ?thesis by simp
qed

text \<open>
  C3, as stated, does not hold of the time-range rule of section 4.5 of the
  specification: with exactly one year and a month entity the rule narrows the range, so
  for the year 2023 and the month of March the range is not the whole year 2023.
\<close>

theorem timeRange_narrowed_counterexample:
  "years (no_entities\<lparr>years := [2023], months := [3]\<rparr>) \<noteq> [] \<and>
   plan_timeRange (no_entities\<lparr>years := [2023], months := [3]\<rparr>)
     = Some (UTC 2023 3 1 0 0, UTC 2023 4 1 0 0) \<and>
   plan_timeRange (no_entities\<lparr>years := [2023], months := [3]\<rparr>)
     \<noteq> Some (UTC 2023 1 1 0 0, UTC 2024 1 1 0 0)"
  by (simp add: plan_timeRange_def month_window_def no_entities_def Let_def)

text \<open>
  C3, amended (against the time-range rule modelled from the specification). For every
  bag whose years are not empty and in which month and season narrowing does not apply
  (two different years are present, or no month and no season was extracted), the time
  range is the closed year span as instants: from January 1st, 00:00 of the least year,
  inclusive, to January 1st, 00:00 of the year after the greatest, exclusive.
\<close>

theorem timeRange_year_span:
  assumes "years bag \<noteq> []"
    and "(\<exists>a \<in> set (years bag). \<exists>b \<in> set (years bag). a \<noteq> b) \<or>
         (months bag = [] \<and> seasons bag = [])"
  shows "plan_timeRange bag =
           Some (UTC (Min (set (years bag))) 1 1 0 0, UTC (Max (set (years bag)) + 1) 1 1 0 0)"
proof -
  from assms(1) obtain y ys where ys: "years bag = y # ys" by (cases "years bag") auto
  let ?lo = "least y ys" and ?hi = "greatest y ys"
  have lo: "?lo = Min (set (years bag))" and hi: "?hi = Max (set (years bag))"
    unfolding ys by (rule least_Min, rule greatest_Max)
  from assms(2) show ?thesis
  proof
    assume "\<exists>a \<in> set (years bag). \<exists>b \<in> set (years bag). a \<noteq> b"
    then obtain a b where "a \<in> set (years bag)" "b \<in> set (years bag)" "a \<noteq> b" by blast
    then have "Min (set (years bag)) \<noteq> Max (set (years bag))"
      using Min_Max_differ [of "set (years bag)" a b] by simp
    then have "?lo \<noteq> ?hi" using lo hi by simp
    then show ?thesis
      unfolding lo [symmetric] hi [symmetric] by (simp add: plan_timeRange_def ys Let_def)
  next
    assume "months bag = [] \<and> seasons bag = []"
    then show ?thesis
      unfolding lo [symmetric] hi [symmetric] by (simp add: plan_timeRange_def ys Let_def)
  qed
qed

theorem timeRange_year_span_witness:
  "years (no_entities\<lparr>years := [2023], vehicleIds := [ascii ''70886'']\<rparr>) \<noteq> [] \<and>
   months (no_entities\<lparr>years := [2023], vehicleIds := [ascii ''70886'']\<rparr>) = [] \<and>
   seasons (no_entities\<lparr>years := [2023], vehicleIds := [ascii ''70886'']\<rparr>) = [] \<and>
   plan_timeRange (no_entities\<lparr>years := [2023], vehicleIds := [ascii ''70886'']\<rparr>)
     = Some (UTC 2023 1 1 0 0, UTC 2024 1 1 0 0) \<and>
   plan_timeRange (no_entities\<lparr>years := [2022, 2023], months := [3]\<rparr>)
     = Some (UTC 2022 1 1 0 0, UTC 2024 1 1 0 0)"
proof -
  let ?b1 = "no_entities\<lparr>years := [2023], vehicleIds := [ascii ''70886'']\<rparr>"
  let ?b2 = "no_entities\<lparr>years := [2022, 2023], months := [3]\<rparr>"
  have h1: "years ?b1 \<noteq> []" "months ?b1 = [] \<and> seasons ?b1 = []"
    by (simp_all add: no_entities_def)
  have h2: "years ?b2 \<noteq> []" "\<exists>a \<in> set (years ?b2). \<exists>b \<in> set (years ?b2). a \<noteq> b"
    by (auto simp: no_entities_def)
  have m1: "Min (set (years ?b1)) = 2023" "Max (set (years ?b1)) = 2023"
    by (simp_all add: no_entities_def)
  have m2: "Min (set (years ?b2)) = 2022" "Max (set (years ?b2)) = 2023"
    by (simp_all add: no_entities_def)
  have c1: "plan_timeRange ?b1 = Some (UTC 2023 1 1 0 0, UTC 2024 1 1 0 0)"
    using timeRange_year_span [of ?b1] h1 unfolding m1 by simp
  have c2: "plan_timeRange ?b2 = Some (UTC 2022 1 1 0 0, UTC 2024 1 1 0 0)"
    using timeRange_year_span [of ?b2] h2 unfolding m2 by simp
  from h1 c1 c2 show ?thesis by simp
qed

end
